theory Spec2Isabelle
  imports Complex_Main "HOL-Library.Multiset"
begin

section \<open>The host application as seen by the script\<close>

text \<open>
  The script \<^verbatim>\<open>ANM_Set_Layer_Pivots_At_Center_Of_Drawings.js\<close> runs inside a host
  application and talks to it through the scripting objects \<^verbatim>\<open>selection\<close>,
  \<^verbatim>\<open>node\<close>, \<^verbatim>\<open>scene\<close>, \<^verbatim>\<open>frame\<close>, \<^verbatim>\<open>Drawing.query\<close>, \<^verbatim>\<open>MessageBox\<close> and
  \<^verbatim>\<open>MessageLog\<close>. None of these is part of the repository, so each query the script makes
  is a field of the record \<open>host\<close> below, and each call with an effect is appended to the
  field \<open>calls\<close> in the order in which it is made.

  A node reference is the node's path, a string; the empty string is the host's answer
  "no such node". JavaScript numbers are idealised as rationals: the arithmetic of the
  script (\<open>/\<close>, \<open>*\<close>, \<open>+\<close>, \<open>-\<close>, \<^verbatim>\<open>Math.min\<close>, \<^verbatim>\<open>Math.max\<close>) is exact here, and the one
  place where the script itself rounds, \<^verbatim>\<open>parseFloat(x.toFixed(20))\<close>, is modelled as the
  rounding to 20 decimal places that ECMAScript prescribes for \<^verbatim>\<open>toFixed\<close>.
\<close>

type_synonym node = string

text \<open>What a text attribute holds: the script reads strings and writes numbers.\<close>

datatype tval = TextVal string | NumVal rat

text \<open>
  The three answers of \<^verbatim>\<open>Drawing.query.getBox\<close> that the script tells apart: \<^verbatim>\<open>false\<close>,
  an object with the key \<^verbatim>\<open>empty\<close>, and an object with the bounds \<^verbatim>\<open>x0 y0 x1 y1\<close>.
\<close>

datatype box = BoxFalse | BoxEmpty | Box (x0: rat) (y0: rat) (x1: rat) (y1: rat)

datatype point2d = Point2d (px: rat) (py: rat)

text \<open>
  The two lines the script sends to \<^verbatim>\<open>MessageLog.trace\<close>. \<open>NoParentPeg d\<close> is the string
  \<^verbatim>\<open>d + " is not animatable, and it does not have a parent peg to set its pivot position."\<close>
  and \<open>EmptyAtFrame d fr\<close> is
  \<^verbatim>\<open>d + " is empty at frame " + fr + ". Unable to set its layer pivot."\<close>.
\<close>

datatype notice = NoParentPeg node | EmptyAtFrame node nat

text \<open>The calls with an effect, with their arguments in the order of the source.\<close>

datatype event =
    Information string
  | Trace notice
  | BeginUndoRedoAccum string
  | EndUndoRedoAccum string
  | SetTextAttr node string nat tval

record host =
  selectedNodes :: "node list"
  nodeType :: "node \<Rightarrow> string"
  subNodes :: "node \<Rightarrow> node list"
  numberOfSubNodes :: "node \<Rightarrow> nat"
  parentNode :: "node \<Rightarrow> node"
  srcNode :: "node \<Rightarrow> nat \<Rightarrow> node"
  getAttrBool :: "node \<Rightarrow> nat \<Rightarrow> string \<Rightarrow> bool"
  textAttr :: "node \<Rightarrow> string \<Rightarrow> tval"
  frameCurrent :: nat
  getBox :: "node \<Rightarrow> nat \<Rightarrow> nat \<Rightarrow> box"
  resolvePivot :: "(node \<Rightarrow> string \<Rightarrow> tval) \<Rightarrow> node \<Rightarrow> nat \<Rightarrow> point2d"
  toOGLX :: "rat \<Rightarrow> rat"
  toOGLY :: "rat \<Rightarrow> rat"
  fromOGLX :: "rat \<Rightarrow> rat"
  fromOGLY :: "rat \<Rightarrow> rat"
  calls :: "event list"

text \<open>
  \<open>getAttrBool h n fr a\<close> is \<^verbatim>\<open>node.getAttr(n, fr, a).boolValue()\<close>; \<open>getBox h n fr at\<close> is
  \<^verbatim>\<open>Drawing.query.getBox({drawing: {node: n, frame: fr}, art: at})\<close>; \<open>srcNode h n i\<close> is
  \<^verbatim>\<open>node.srcNode(n, i)\<close>. The text attributes are a store indexed by node and attribute
  name: \<^verbatim>\<open>node.getTextAttr\<close> reads it and \<^verbatim>\<open>node.setTextAttr\<close> updates it and is logged
  with its frame argument. \<^verbatim>\<open>node.getPivot\<close> is computed by the host from the current
  store, which is why \<open>resolvePivot\<close> takes the store as an argument.
\<close>

definition getTextAttr :: "host \<Rightarrow> node \<Rightarrow> nat \<Rightarrow> string \<Rightarrow> tval" where
  "getTextAttr h n fr a = textAttr h n a"

definition setTextAttr :: "node \<Rightarrow> string \<Rightarrow> nat \<Rightarrow> tval \<Rightarrow> host \<Rightarrow> host" where
  "setTextAttr n a fr v h =
     h\<lparr>textAttr := (textAttr h)(n := (textAttr h n)(a := v)),
       calls := calls h @ [SetTextAttr n a fr v]\<rparr>"

definition getPivot :: "host \<Rightarrow> node \<Rightarrow> nat \<Rightarrow> point2d" where
  "getPivot h n fr = resolvePivot h (textAttr h) n fr"

definition emit :: "event \<Rightarrow> host \<Rightarrow> host" where
  "emit e h = h\<lparr>calls := calls h @ [e]\<rparr>"

section \<open>The helper functions of the script\<close>

subsection \<open>\<^verbatim>\<open>getDrawings\<close>\<close>

text \<open>
  The loop of \<^verbatim>\<open>getDrawings\<close> over \<^verbatim>\<open>nodeList\<close>, with \<^verbatim>\<open>drawingList\<close> as the
  accumulator. The function calls itself on the children of every group, and nothing in
  the script bounds the depth of that recursion: on a host whose groups contain
  themselves it does not return, which is the value \<open>None\<close> here.
\<close>

partial_function (option) getDrawingsLoop :: "host \<Rightarrow> node list \<Rightarrow> node list \<Rightarrow> node list option"
where
  "getDrawingsLoop h nodeList drawingList =
     (case nodeList of
        [] \<Rightarrow> Some drawingList
      | curNode # rest \<Rightarrow>
          if nodeType h curNode = ''READ'' then getDrawingsLoop h rest (drawingList @ [curNode])
          else if nodeType h curNode = ''GROUP'' then
            Option.bind (getDrawingsLoop h (subNodes h curNode) [])
              (\<lambda>subDrawingList. getDrawingsLoop h rest (drawingList @ subDrawingList))
          else getDrawingsLoop h rest drawingList)"

declare getDrawingsLoop.simps [code]

definition getDrawings :: "host \<Rightarrow> node list \<Rightarrow> node list option" where
  "getDrawings h nodeList = getDrawingsLoop h nodeList []"

subsection \<open>\<^verbatim>\<open>traverseChainUpToFindPeg\<close>\<close>

text \<open>
  The \<^verbatim>\<open>for\<close> loop of \<^verbatim>\<open>traverseChainUpToFindPeg\<close>; the first argument is the number of
  iterations that are left, \<^verbatim>\<open>numSubNodes - nd\<close>.
\<close>

fun chainLoop :: "host \<Rightarrow> nat \<Rightarrow> node \<Rightarrow> node" where
  "chainLoop h 0 src = ''''"
| "chainLoop h (Suc k) src =
     (if src = '''' then ''''
      else if nodeType h src = ''PEG'' then src
      else chainLoop h k (srcNode h src 0))"

definition traverseChainUpToFindPeg :: "host \<Rightarrow> node \<Rightarrow> node" where
  "traverseChainUpToFindPeg h lastNode =
     (let numSubNodes = numberOfSubNodes h (parentNode h lastNode);
          src = srcNode h lastNode 0
      in chainLoop h numSubNodes src)"

subsection \<open>\<^verbatim>\<open>midPointAt\<close> and \<^verbatim>\<open>subtractBFromA\<close>\<close>

text \<open>
  \<open>toFixedParseFloat f v\<close> is \<^verbatim>\<open>parseFloat(v.toFixed(f))\<close>. \<^verbatim>\<open>toFixed\<close> prints a number
  below \<open>10\<^sup>2\<^sup>1\<close> in magnitude with \<open>f\<close> digits after the point, taking the integer \<open>n\<close> for
  which \<open>n / 10\<^sup>f\<close> is closest to the magnitude and the larger one of two; from \<open>10\<^sup>2\<^sup>1\<close> on
  it prints the number itself.
\<close>

definition toFixedParseFloat :: "nat \<Rightarrow> rat \<Rightarrow> rat" where
  "toFixedParseFloat f v =
     (if \<bar>v\<bar> \<ge> 10 ^ 21 then v
      else if v < 0 then - (of_int \<lfloor>(- v) * 10 ^ f + 1 / 2\<rfloor> / 10 ^ f)
      else of_int \<lfloor>v * 10 ^ f + 1 / 2\<rfloor> / 10 ^ f)"

definition midPointAt :: "point2d \<Rightarrow> point2d \<Rightarrow> rat \<Rightarrow> point2d" where
  "midPointAt p1 p2 t =
     (let x = px p1 * (1 - t) + px p2 * t;
          y = py p1 * (1 - t) + py p2 * t
      in Point2d (toFixedParseFloat 20 x) (toFixedParseFloat 20 y))"

definition subtractBFromA :: "point2d \<Rightarrow> point2d \<Rightarrow> point2d" where
  "subtractBFromA p3d_A p3d_B = Point2d (px p3d_A - px p3d_B) (py p3d_A - py p3d_B)"

section \<open>The body of the main loop\<close>

subsection \<open>Lines 58 to 83: the node that receives the pivot\<close>

definition parentPegMode :: string where
  "parentPegMode = ''Apply Embedded Pivot on Parent Peg''"

definition drawingLayerMode :: string where
  "drawingLayerMode = ''Apply Embedded Pivot on Drawing Layer''"

text \<open>\<open>None\<close> is the \<^verbatim>\<open>continue\<close> after the trace line; both exits log the same line.\<close>

definition findPivotNode :: "host \<Rightarrow> node \<Rightarrow> node option" where
  "findPivotNode h curDrawing =
     (let boolAnimatable = getAttrBool h curDrawing 1 ''canAnimate'';
          embeddedPivotOption = getTextAttr h curDrawing 1 ''useDrawingPivot''
      in if \<not> boolAnimatable \<or> (boolAnimatable \<and> embeddedPivotOption = TextVal parentPegMode)
         then
           (let pivotNode = srcNode h curDrawing 0
            in if pivotNode = '''' then None
               else if nodeType h pivotNode \<noteq> ''PEG'' then
                 (let pivotNode' = traverseChainUpToFindPeg h pivotNode
                  in if pivotNode' = '''' then None else Some pivotNode')
               else Some pivotNode)
         else Some curDrawing)"

subsection \<open>Lines 88 to 116: the corners of the four art layers\<close>

text \<open>
  \<open>corners\<close> is \<open>None\<close> as long as \<^verbatim>\<open>"x" in corners[0]\<close> is false, and then the pair of
  \<^verbatim>\<open>corners[0]\<close> and \<^verbatim>\<open>corners[1]\<close>.
\<close>

definition cornerStep :: "(point2d \<times> point2d) option \<Rightarrow> box \<Rightarrow> (point2d \<times> point2d) option" where
  "cornerStep corners b =
     (case b of
        BoxFalse \<Rightarrow> corners
      | BoxEmpty \<Rightarrow> corners
      | Box bx0 by0 bx1 by1 \<Rightarrow>
          (case corners of
             None \<Rightarrow> Some (Point2d (bx0 / 1875) (by0 / 1875), Point2d (bx1 / 1875) (by1 / 1875))
           | Some (c0, c1) \<Rightarrow>
               Some (Point2d (min (bx0 / 1875) (px c0)) (min (by0 / 1875) (py c0)),
                     Point2d (max (bx1 / 1875) (px c1)) (max (by1 / 1875) (py c1)))))"

text \<open>The loop over the art layers, for any sequence of layer indices.\<close>

definition cornersOfLayers :: "host \<Rightarrow> node \<Rightarrow> nat \<Rightarrow> nat list \<Rightarrow> (point2d \<times> point2d) option" where
  "cornersOfLayers h curDrawing fr arts =
     foldl cornerStep None (map (getBox h curDrawing fr) arts)"

text \<open>The script visits the layers 0, 1, 2, 3 in this order.\<close>

definition artLayerCorners :: "host \<Rightarrow> node \<Rightarrow> nat \<Rightarrow> (point2d \<times> point2d) option" where
  "artLayerCorners h curDrawing fr = cornersOfLayers h curDrawing fr [0, 1, 2, 3]"

subsection \<open>Lines 120 to 146: the center, the inversion of the drawing pivot, the write\<close>

definition needsInverse :: "host \<Rightarrow> node \<Rightarrow> node \<Rightarrow> bool" where
  "needsInverse h curDrawing pivotNode =
     (let embeddedPivotOption = getTextAttr h curDrawing 1 ''useDrawingPivot''
      in (curDrawing \<noteq> pivotNode \<and> embeddedPivotOption = TextVal parentPegMode) \<or>
         (curDrawing = pivotNode \<and> embeddedPivotOption = TextVal drawingLayerMode))"

definition inverseDrawingPivot :: "host \<Rightarrow> node \<Rightarrow> nat \<Rightarrow> point2d \<Rightarrow> host \<times> point2d" where
  "inverseDrawingPivot h pivotNode fr center_local_OGL =
     (let h1 = setTextAttr pivotNode ''pivot.x'' 1 (NumVal 0) h;
          h2 = setTextAttr pivotNode ''pivot.y'' 1 (NumVal 0) h1;
          drawPivot = getPivot h2 pivotNode fr
      in if px drawPivot \<noteq> 0 \<or> py drawPivot \<noteq> 0 then
           (let drawPivot_local_OGL =
                  Point2d (toOGLX h2 (px drawPivot)) (toOGLY h2 (py drawPivot))
            in (h2, subtractBFromA center_local_OGL drawPivot_local_OGL))
         else (h2, center_local_OGL))"

definition writePivot :: "node \<Rightarrow> point2d \<Rightarrow> host \<Rightarrow> host" where
  "writePivot pivotNode center_local_OGL h =
     (let h1 = setTextAttr pivotNode ''pivot.x'' 1 (NumVal (fromOGLX h (px center_local_OGL))) h
      in setTextAttr pivotNode ''pivot.y'' 1 (NumVal (fromOGLY h1 (py center_local_OGL))) h1)"

definition processDrawing :: "host \<Rightarrow> node \<Rightarrow> host" where
  "processDrawing h curDrawing =
     (case findPivotNode h curDrawing of
        None \<Rightarrow> emit (Trace (NoParentPeg curDrawing)) h
      | Some pivotNode \<Rightarrow>
          (let fr = frameCurrent h
           in case artLayerCorners h curDrawing fr of
                None \<Rightarrow> emit (Trace (EmptyAtFrame curDrawing fr)) h
              | Some (btmL_local_OGL, topR_local_OGL) \<Rightarrow>
                  (let center_local_OGL = midPointAt btmL_local_OGL topR_local_OGL (1 / 2)
                   in if needsInverse h curDrawing pivotNode then
                        (case inverseDrawingPivot h pivotNode fr center_local_OGL of
                           (h', center') \<Rightarrow> writePivot pivotNode center' h')
                      else writePivot pivotNode center_local_OGL h)))"

section \<open>The entry point\<close>

definition noSelectionMessage :: string where
  "noSelectionMessage =
     ''Please select at least one drawing node before running this script.'' @ [CHR 0x0A] @
     ''You can also select a group that contain multiple drawing nodes.''"

definition undoName :: string where
  "undoName = ''Set layer pivot(s) at the center of drawing(s)''"

text \<open>The \<^verbatim>\<open>for (var n in sNodes)\<close> loop: the drawings in the order of the array.\<close>

definition mainLoop :: "host \<Rightarrow> node list \<Rightarrow> host" where
  "mainLoop h sNodes = foldl processDrawing h sNodes"

definition ANM_Set_Layer_Pivots_At_Center_Of_Drawings :: "host \<Rightarrow> host option" where
  "ANM_Set_Layer_Pivots_At_Center_Of_Drawings h =
     (case getDrawings h (selectedNodes h) of
        None \<Rightarrow> None
      | Some sNodes \<Rightarrow>
          if length sNodes = 0 then Some (emit (Information noSelectionMessage) h)
          else Some (emit (EndUndoRedoAccum '''')
                      (mainLoop (emit (BeginUndoRedoAccum undoName) h) sNodes)))"

section \<open>Notions used in the statements\<close>

subsection \<open>The calls of one run and the nodes they write\<close>

text \<open>The calls made between the state \<open>h\<close> and a later state \<open>h'\<close>.\<close>

definition newCalls :: "host \<Rightarrow> host \<Rightarrow> event list" where
  "newCalls h h' = drop (length (calls h)) (calls h')"

fun writtenNode :: "event \<Rightarrow> node list" where
  "writtenNode (SetTextAttr n a fr v) = [n]"
| "writtenNode e = []"

definition writtenNodes :: "event list \<Rightarrow> node set" where
  "writtenNodes es = set (concat (map writtenNode es))"

fun isSetTextAttr :: "event \<Rightarrow> bool" where
  "isSetTextAttr (SetTextAttr n a fr v) = True"
| "isSetTextAttr e = False"

text \<open>The test \<^verbatim>\<open>box == false || "empty" in box\<close> of line 94.\<close>

fun boxIsEmpty :: "box \<Rightarrow> bool" where
  "boxIsEmpty (Box bx0 by0 bx1 by1) = False"
| "boxIsEmpty b = True"

text \<open>Some art layer of the drawing has a box at the current frame.\<close>

definition hasBox :: "host \<Rightarrow> node \<Rightarrow> bool" where
  "hasBox h d = list_ex (\<lambda>art. \<not> boxIsEmpty (getBox h d (frameCurrent h) art)) [0, 1, 2, 3]"

text \<open>
  Two states show the same scene when they differ in the text attributes and in the log
  of calls only.
\<close>

definition sameScene :: "host \<Rightarrow> host \<Rightarrow> bool" where
  "sameScene h h' \<longleftrightarrow>
     selectedNodes h' = selectedNodes h \<and> nodeType h' = nodeType h \<and>
     subNodes h' = subNodes h \<and> numberOfSubNodes h' = numberOfSubNodes h \<and>
     parentNode h' = parentNode h \<and> srcNode h' = srcNode h \<and>
     getAttrBool h' = getAttrBool h \<and> frameCurrent h' = frameCurrent h \<and>
     getBox h' = getBox h \<and> resolvePivot h' = resolvePivot h \<and>
     toOGLX h' = toOGLX h \<and> toOGLY h' = toOGLY h \<and>
     fromOGLX h' = fromOGLX h \<and> fromOGLY h' = fromOGLY h"

text \<open>The attribute names the script passes to \<^verbatim>\<open>node.setTextAttr\<close>.\<close>

definition pivotAttr :: "string \<Rightarrow> bool" where
  "pivotAttr a \<longleftrightarrow> a = ''pivot.x'' \<or> a = ''pivot.y''"

subsection \<open>The source chain above a node\<close>

text \<open>\<open>upstream h k n\<close> is the node reached from \<open>n\<close> by \<open>k\<close> steps of \<^verbatim>\<open>node.srcNode(_, 0)\<close>.\<close>

definition upstream :: "host \<Rightarrow> nat \<Rightarrow> node \<Rightarrow> node" where
  "upstream h k n = ((\<lambda>m. srcNode h m 0) ^^ k) n"

text \<open>The nodes strictly between \<open>n\<close> and its \<open>k\<close>-th source are nodes, and none is a peg.\<close>

definition noPegBefore :: "host \<Rightarrow> nat \<Rightarrow> node \<Rightarrow> bool" where
  "noPegBefore h k n \<longleftrightarrow>
     (\<forall>j \<in> {1..<k}. upstream h j n \<noteq> '''' \<and> nodeType h (upstream h j n) \<noteq> ''PEG'')"

text \<open>The condition of line 66 under which the pivot goes to a peg above the drawing.\<close>

definition needsPeg :: "host \<Rightarrow> node \<Rightarrow> bool" where
  "needsPeg h d \<longleftrightarrow>
     \<not> getAttrBool h d 1 ''canAnimate'' \<or>
     getTextAttr h d 1 ''useDrawingPivot'' = TextVal parentPegMode"

subsection \<open>The scene as a forest\<close>

text \<open>
  \<open>unfolds h n t\<close>: the finite tree \<open>t\<close> is what the host shows below the node \<open>n\<close>, a
  group with the trees of its \<^verbatim>\<open>node.subNodes\<close> in their order, any other node alone.
  \<open>drawingsOf\<close> lists the drawings of such a tree from left to right, a group's drawings
  in the place of the group: the depth-first, order-preserving flattening of the
  specification.
\<close>

datatype ntree = NTree node "ntree list"

inductive unfolds :: "host \<Rightarrow> node \<Rightarrow> ntree \<Rightarrow> bool" for h :: host where
  unfolds_other: "nodeType h n \<noteq> ''GROUP'' \<Longrightarrow> unfolds h n (NTree n [])"
| unfolds_group: "nodeType h n = ''GROUP'' \<Longrightarrow> list_all2 (unfolds h) (subNodes h n) ts \<Longrightarrow>
     unfolds h n (NTree n ts)"

code_pred unfolds .

fun drawingsOf :: "host \<Rightarrow> ntree \<Rightarrow> node list" where
  "drawingsOf h (NTree n ts) =
     (if nodeType h n = ''READ'' then [n]
      else if nodeType h n = ''GROUP'' then concat (map (drawingsOf h) ts)
      else [])"

text \<open>How often the drawing \<open>d\<close> stands in a tree, below groups only.\<close>

fun occurrences :: "host \<Rightarrow> node \<Rightarrow> ntree \<Rightarrow> nat" where
  "occurrences h d (NTree n ts) =
     (if nodeType h n = ''READ'' then (if n = d then 1 else 0)
      else if nodeType h n = ''GROUP'' then sum_list (map (occurrences h d) ts)
      else 0)"

subsection \<open>The corners and the center in the words of the specification\<close>

text \<open>The boxes of the four art layers that are not empty, in the order of the layers.\<close>

definition layerBoxes :: "host \<Rightarrow> node \<Rightarrow> nat \<Rightarrow> box list" where
  "layerBoxes h d fr = filter (\<lambda>b. \<not> boxIsEmpty b) (map (getBox h d fr) [0, 1, 2, 3])"

text \<open>
  The componentwise minimum of the bottom-left corners and the componentwise maximum of
  the top-right corners, each corner divided by 1875.
\<close>

definition minBottomLeft :: "box list \<Rightarrow> point2d" where
  "minBottomLeft bs = Point2d (Min (set (map (\<lambda>b. x0 b / 1875) bs)))
                              (Min (set (map (\<lambda>b. y0 b / 1875) bs)))"

definition maxTopRight :: "box list \<Rightarrow> point2d" where
  "maxTopRight bs = Point2d (Max (set (map (\<lambda>b. x1 b / 1875) bs)))
                            (Max (set (map (\<lambda>b. y1 b / 1875) bs)))"




subsection \<open>What one pass and one run may change\<close>

text \<open>The node that the pass for the drawing \<open>d\<close> writes, if it writes at all.\<close>

definition writeTargets :: "host \<Rightarrow> node \<Rightarrow> node set" where
  "writeTargets h d =
     (case findPivotNode h d of
        None \<Rightarrow> {}
      | Some t \<Rightarrow> if hasBox h d then {t} else {})"

text \<open>
  The number of \<^verbatim>\<open>node.setTextAttr\<close> calls of the pass for \<open>d\<close>: none when the drawing is
  skipped, the two writes of lines 145 and 146, and the two resets of lines 131 and 132
  before them when the drawing pivot is inverted.
\<close>

definition writesPerPass :: "host \<Rightarrow> node \<Rightarrow> nat" where
  "writesPerPass h d =
     (case findPivotNode h d of
        None \<Rightarrow> 0
      | Some t \<Rightarrow> if hasBox h d then (if needsInverse h d t then 4 else 2) else 0)"

text \<open>
  A call is harmless for the nodes outside \<open>T\<close> when it is no \<^verbatim>\<open>node.setTextAttr\<close>, or
  sets \<^verbatim>\<open>pivot.x\<close> or \<^verbatim>\<open>pivot.y\<close> of a node of \<open>T\<close>, with 1 for the frame.
\<close>

fun pivotWrite :: "node set \<Rightarrow> event \<Rightarrow> bool" where
  "pivotWrite T (SetTextAttr n a fr v) = (n \<in> T \<and> pivotAttr a \<and> fr = 1)"
| "pivotWrite T e = True"

text \<open>The same scene, and the same text attributes but for the pivots of the nodes of \<open>T\<close>.\<close>

definition sameButPivots :: "node set \<Rightarrow> host \<Rightarrow> host \<Rightarrow> bool" where
  "sameButPivots T h h' \<longleftrightarrow>
     sameScene h h' \<and> (\<forall>n a. textAttr h' n a \<noteq> textAttr h n a \<longrightarrow> n \<in> T \<and> pivotAttr a)"

section \<open>A scene to run the script on\<close>

text \<open>
  The group \<open>G\<close> holds the peg \<open>P\<close>, the composite \<open>Q\<close>, the drawings \<open>A\<close>, \<open>B\<close>, \<open>C\<close> and
  the group \<open>H\<close> with the drawings \<open>D\<close> and \<open>E\<close>. \<open>A\<close> hangs under \<open>P\<close>, \<open>B\<close> under \<open>Q\<close>
  under \<open>P\<close>; the other drawings have no source. \<open>K\<close> is a group with nothing in it,
  beside \<open>G\<close>. \<open>A\<close>, \<open>D\<close> and \<open>E\<close> are animatable; \<open>A\<close> is in the drawing-layer mode and
  \<open>D\<close> in the parent-peg mode. The host of this scene resolves the pivot of a node as its
  pivot attributes plus the embedded pivot of the drawing, which is (10, 12) for \<open>A\<close>,
  that is (5, 3) in the internal units, and the current frame is 7.
\<close>

definition demoPivot :: "(node \<Rightarrow> string \<Rightarrow> tval) \<Rightarrow> node \<Rightarrow> nat \<Rightarrow> point2d" where
  "demoPivot store n fr =
     (let ex = (if n = ''A'' then 10 else 0);
          ey = (if n = ''A'' then 12 else 0)
      in case (store n ''pivot.x'', store n ''pivot.y'') of
           (NumVal x, NumVal y) \<Rightarrow> Point2d (x + ex) (y + ey)
         | _ \<Rightarrow> Point2d ex ey)"

definition demo :: host where
  "demo = \<lparr>
     selectedNodes = [''G''],
     nodeType = (\<lambda>n. if n = ''G'' \<or> n = ''H'' \<or> n = ''K'' then ''GROUP''
                     else if n = ''A'' \<or> n = ''B'' \<or> n = ''C'' \<or> n = ''D'' \<or> n = ''E'' then ''READ''
                     else if n = ''P'' then ''PEG''
                     else if n = ''Q'' then ''COMPOSITE'' else ''''),
     subNodes = (\<lambda>n. if n = ''G'' then [''P'', ''Q'', ''A'', ''H'', ''B'', ''C'']
                     else if n = ''H'' then [''D'', ''E''] else []),
     numberOfSubNodes = (\<lambda>n. if n = ''G'' then 6 else if n = ''H'' then 2 else 0),
     parentNode = (\<lambda>n. if n = ''D'' \<or> n = ''E'' then ''H'' else if n = ''G'' then '''' else ''G''),
     srcNode = (\<lambda>n i. if i = 0 \<and> n = ''A'' then ''P''
                      else if i = 0 \<and> n = ''B'' then ''Q''
                      else if i = 0 \<and> n = ''Q'' then ''P'' else ''''),
     getAttrBool = (\<lambda>n fr a. a = ''canAnimate'' \<and> (n = ''A'' \<or> n = ''D'' \<or> n = ''E'')),
     textAttr = (\<lambda>n a. if a = ''useDrawingPivot'' then
                           (if n = ''A'' then TextVal drawingLayerMode
                            else if n = ''D'' then TextVal parentPegMode
                            else TextVal ''Don't Use Embedded Pivot'')
                         else TextVal ''''),
     frameCurrent = 7,
     getBox = (\<lambda>n fr art. if fr = 7 \<and> n = ''A'' \<and> art = 0 then Box 0 0 18750 37500
                         else if fr = 7 \<and> n = ''A'' \<and> art = 2 then Box 9375 1875 37500 5625
                         else if fr = 7 \<and> n = ''A'' \<and> art = 3 then BoxFalse
                         else if fr = 7 \<and> n = ''B'' \<and> art = 1 then Box (- 3750) 0 3750 1875
                         else if fr = 7 \<and> n = ''B'' \<and> art = 3 then Box (- 1875) (- 1875) 7500 0
                         else if fr = 7 \<and> n = ''C'' \<and> art = 1 then Box 0 0 1875 1875
                         else BoxEmpty),
     resolvePivot = demoPivot,
     toOGLX = (\<lambda>v. v / 2),
     toOGLY = (\<lambda>v. v / 4),
     fromOGLX = (\<lambda>v. v * 2),
     fromOGLY = (\<lambda>v. v * 4),
     calls = []
   \<rparr>"

text \<open>The tree below \<open>G\<close> in that scene.\<close>

definition demoTree :: ntree where
  "demoTree = NTree ''G'' [NTree ''P'' [], NTree ''Q'' [], NTree ''A'' [],
       NTree ''H'' [NTree ''D'' [], NTree ''E'' []], NTree ''B'' [], NTree ''C'' []]"

text \<open>The same scene with the empty group and the peg selected.\<close>

definition demoNoDrawing :: host where
  "demoNoDrawing = demo\<lparr>selectedNodes := [''K'', ''P'']\<rparr>"


text \<open>The same scene on a host that reports no node under any parent.\<close>

definition demoShallow :: host where
  "demoShallow = demo\<lparr>numberOfSubNodes := (\<lambda>n. 0)\<rparr>"

text \<open>The same scene with the drawing \<open>A\<close> selected beside the group that holds it.\<close>

definition demoTwice :: host where
  "demoTwice = demo\<lparr>selectedNodes := [''A'', ''G'']\<rparr>"

section \<open>Lemmas about the model\<close>

subsection \<open>\<^verbatim>\<open>getDrawings\<close> on a finite forest\<close>

lemma getDrawingsLoop_Nil: "getDrawingsLoop h [] acc = Some acc"
  by (subst getDrawingsLoop.simps) simp

lemma getDrawingsLoop_Cons:
  "getDrawingsLoop h (curNode # rest) acc =
     (if nodeType h curNode = ''READ'' then getDrawingsLoop h rest (acc @ [curNode])
      else if nodeType h curNode = ''GROUP'' then
        Option.bind (getDrawingsLoop h (subNodes h curNode) [])
          (\<lambda>subDrawingList. getDrawingsLoop h rest (acc @ subDrawingList))
      else getDrawingsLoop h rest acc)"
  by (subst getDrawingsLoop.simps) simp

lemma getDrawingsLoop_unfolds:
  "list_all2 (unfolds h) ns ts \<Longrightarrow>
     getDrawingsLoop h ns acc = Some (acc @ concat (map (drawingsOf h) ts))"
proof (induction "size_list size ts" arbitrary: ns ts acc rule: less_induct)
  case less
  show ?case
  proof (cases ts)
    case Nil
    with less.prems show ?thesis by (simp add: getDrawingsLoop_Nil)
  next
    case (Cons t ts')
    with less.prems obtain n ns' where ns: "ns = n # ns'" and t: "unfolds h n t"
      and rest: "list_all2 (unfolds h) ns' ts'"
      by (auto simp: list_all2_Cons2)
    have IHrest: "\<And>acc'. getDrawingsLoop h ns' acc' = Some (acc' @ concat (map (drawingsOf h) ts'))"
      using less.hyps[of ts' ns'] rest Cons by simp
    from t show ?thesis
    proof (cases rule: unfolds.cases)
      case unfolds_other
      then show ?thesis using ns Cons IHrest
        by (simp add: getDrawingsLoop_Cons)
    next
      case (unfolds_group cs)
      have "size_list size cs < size_list size ts" using Cons unfolds_group by simp
      then have "getDrawingsLoop h (subNodes h n) [] = Some ([] @ concat (map (drawingsOf h) cs))"
        using less.hyps[of cs "subNodes h n" "[]"] unfolds_group by blast
      then show ?thesis using ns Cons IHrest unfolds_group
        by (simp add: getDrawingsLoop_Cons)
    qed
  qed
qed

lemma getDrawings_unfolds:
  "list_all2 (unfolds h) ns ts \<Longrightarrow> getDrawings h ns = Some (concat (map (drawingsOf h) ts))"
  using getDrawingsLoop_unfolds[of h ns ts "[]"] by (simp add: getDrawings_def)

lemma demo_unfolds: "unfolds demo ''G'' demoTree"
  unfolding demoTree_def
  by (rule unfolds_group; simp add: demo_def)
     (intro conjI; (rule unfolds_other, simp add: demo_def)?; rule unfolds_group; simp add: demo_def; intro conjI; rule unfolds_other; simp add: demo_def)

subsection \<open>The log of calls and the scene\<close>

lemma newCalls_append: "calls h' = calls h @ es \<Longrightarrow> newCalls h h' = es"
  by (simp add: newCalls_def)

lemma sameScene_refl: "sameScene h h"
  by (simp add: sameScene_def)

lemma sameScene_trans: "sameScene h h1 \<Longrightarrow> sameScene h1 h2 \<Longrightarrow> sameScene h h2"
  by (simp add: sameScene_def)

lemma sameScene_setTextAttr: "sameScene h (setTextAttr n a fr v h)"
  by (simp add: sameScene_def setTextAttr_def)

lemma sameScene_emit: "sameScene h (emit e h)"
  by (simp add: sameScene_def emit_def)

lemma calls_setTextAttr: "calls (setTextAttr n a fr v h) = calls h @ [SetTextAttr n a fr v]"
  by (simp add: setTextAttr_def)

lemma textAttr_setTextAttr:
  "textAttr (setTextAttr n a fr v h) = (textAttr h)(n := (textAttr h n)(a := v))"
  by (simp add: setTextAttr_def)

lemma calls_emit: "calls (emit e h) = calls h @ [e]"
  by (simp add: emit_def)

lemma textAttr_emit: "textAttr (emit e h) = textAttr h"
  by (simp add: emit_def)

subsection \<open>What the per-drawing queries depend on\<close>

lemma chainLoop_cong:
  "nodeType h' = nodeType h \<Longrightarrow> srcNode h' = srcNode h \<Longrightarrow> chainLoop h' k s = chainLoop h k s"
  by (induction k arbitrary: s) simp_all

lemma traverse_cong:
  "sameScene h h' \<Longrightarrow> traverseChainUpToFindPeg h' n = traverseChainUpToFindPeg h n"
  using chainLoop_cong[of h' h]
  by (simp add: traverseChainUpToFindPeg_def sameScene_def)

lemma findPivotNode_cong:
  assumes "sameScene h h'"
    and "textAttr h' d ''useDrawingPivot'' = textAttr h d ''useDrawingPivot''"
  shows "findPivotNode h' d = findPivotNode h d"
proof -
  have "traverseChainUpToFindPeg h' (srcNode h d 0) = traverseChainUpToFindPeg h (srcNode h d 0)"
    using assms(1) by (rule traverse_cong)
  moreover have "nodeType h' = nodeType h" "srcNode h' = srcNode h" "getAttrBool h' = getAttrBool h"
    using assms(1) by (simp_all add: sameScene_def)
  ultimately show ?thesis
    using assms(2) by (simp add: findPivotNode_def getTextAttr_def Let_def)
qed

lemma needsInverse_cong:
  "textAttr h' d ''useDrawingPivot'' = textAttr h d ''useDrawingPivot'' \<Longrightarrow>
     needsInverse h' d t = needsInverse h d t"
  by (simp add: needsInverse_def getTextAttr_def)

subsection \<open>The four ways through the body of the loop\<close>

lemma processDrawing_noPeg:
  "findPivotNode h d = None \<Longrightarrow> processDrawing h d = emit (Trace (NoParentPeg d)) h"
  by (simp add: processDrawing_def)

lemma processDrawing_empty:
  "findPivotNode h d = Some t \<Longrightarrow> artLayerCorners h d (frameCurrent h) = None \<Longrightarrow>
     processDrawing h d = emit (Trace (EmptyAtFrame d (frameCurrent h))) h"
  by (simp add: processDrawing_def)

lemma processDrawing_plain:
  "findPivotNode h d = Some t \<Longrightarrow> artLayerCorners h d (frameCurrent h) = Some (bl, tr) \<Longrightarrow>
   \<not> needsInverse h d t \<Longrightarrow>
     processDrawing h d = writePivot t (midPointAt bl tr (1 / 2)) h"
  by (simp add: processDrawing_def)

lemma processDrawing_inverse:
  "findPivotNode h d = Some t \<Longrightarrow> artLayerCorners h d (frameCurrent h) = Some (bl, tr) \<Longrightarrow>
   needsInverse h d t \<Longrightarrow>
     processDrawing h d =
       writePivot t (snd (inverseDrawingPivot h t (frameCurrent h) (midPointAt bl tr (1 / 2))))
         (fst (inverseDrawingPivot h t (frameCurrent h) (midPointAt bl tr (1 / 2))))"
  by (simp add: processDrawing_def split: prod.splits)

lemma calls_writePivot:
  "calls (writePivot t c h) = calls h @
     [SetTextAttr t ''pivot.x'' 1 (NumVal (fromOGLX h (px c))),
      SetTextAttr t ''pivot.y'' 1 (NumVal (fromOGLY h (py c)))]"
  by (simp add: writePivot_def setTextAttr_def)

lemma textAttr_writePivot:
  "textAttr (writePivot t c h) =
     (textAttr h)(t := (textAttr h t)(''pivot.x'' := NumVal (fromOGLX h (px c)),
                                      ''pivot.y'' := NumVal (fromOGLY h (py c))))"
  by (simp add: writePivot_def setTextAttr_def)

lemma sameScene_writePivot: "sameScene h (writePivot t c h)"
  by (simp add: writePivot_def setTextAttr_def sameScene_def)

text \<open>The state after the two resets of lines 131 and 132.\<close>

lemma fst_inverseDrawingPivot:
  "fst (inverseDrawingPivot h t fr c) =
     setTextAttr t ''pivot.y'' 1 (NumVal 0) (setTextAttr t ''pivot.x'' 1 (NumVal 0) h)"
  by (simp add: inverseDrawingPivot_def Let_def)


subsection \<open>The corners of the art layers\<close>

lemma Min_insert_min:
  fixes a c :: rat
  assumes "finite A"
  shows "Min (insert (min a c) A) = Min (insert c (insert a A))"
proof (cases "A = {}")
  case True
  then show ?thesis by (simp add: min.commute)
next
  case False
  with assms show ?thesis by (simp add: min.assoc min.commute min.left_commute)
qed

lemma Max_insert_max:
  fixes a c :: rat
  assumes "finite A"
  shows "Max (insert (max a c) A) = Max (insert c (insert a A))"
proof (cases "A = {}")
  case True
  then show ?thesis by (simp add: max.commute)
next
  case False
  with assms show ?thesis by (simp add: max.assoc max.commute max.left_commute)
qed

lemma foldl_cornerStep_Some:
  "foldl cornerStep (Some (c0, c1)) bs =
     Some (Point2d (Min (insert (px c0) (set (map (\<lambda>b. x0 b / 1875) (filter (\<lambda>b. \<not> boxIsEmpty b) bs)))))
                   (Min (insert (py c0) (set (map (\<lambda>b. y0 b / 1875) (filter (\<lambda>b. \<not> boxIsEmpty b) bs))))),
           Point2d (Max (insert (px c1) (set (map (\<lambda>b. x1 b / 1875) (filter (\<lambda>b. \<not> boxIsEmpty b) bs)))))
                   (Max (insert (py c1) (set (map (\<lambda>b. y1 b / 1875) (filter (\<lambda>b. \<not> boxIsEmpty b) bs))))))"
proof (induction bs arbitrary: c0 c1)
  case Nil
  show ?case by simp
next
  case (Cons b bs)
  show ?case
  proof (cases b)
    case BoxFalse
    then show ?thesis using Cons.IH[of c0 c1] by (simp add: cornerStep_def)
  next
    case BoxEmpty
    then show ?thesis using Cons.IH[of c0 c1] by (simp add: cornerStep_def)
  next
    case (Box bx0 by0 bx1 by1)
    then have "foldl cornerStep (Some (c0, c1)) (b # bs) =
        foldl cornerStep (Some (Point2d (min (bx0 / 1875) (px c0)) (min (by0 / 1875) (py c0)),
                                Point2d (max (bx1 / 1875) (px c1)) (max (by1 / 1875) (py c1)))) bs"
      by (simp add: cornerStep_def)
    then show ?thesis using Box
      by (simp add: Cons.IH Min_insert_min Max_insert_max)
  qed
qed

lemma foldl_cornerStep_None:
  "foldl cornerStep None bs =
     (if filter (\<lambda>b. \<not> boxIsEmpty b) bs = [] then None
      else Some (minBottomLeft (filter (\<lambda>b. \<not> boxIsEmpty b) bs),
                 maxTopRight (filter (\<lambda>b. \<not> boxIsEmpty b) bs)))"
proof (induction bs)
  case Nil
  show ?case by simp
next
  case (Cons b bs)
  show ?case
  proof (cases b)
    case BoxFalse
    then show ?thesis using Cons.IH by (simp add: cornerStep_def)
  next
    case BoxEmpty
    then show ?thesis using Cons.IH by (simp add: cornerStep_def)
  next
    case (Box bx0 by0 bx1 by1)
    then have "cornerStep None b =
        Some (Point2d (bx0 / 1875) (by0 / 1875), Point2d (bx1 / 1875) (by1 / 1875))"
      by (simp add: cornerStep_def)
    then show ?thesis using Box
      by (simp add: foldl_cornerStep_Some minBottomLeft_def maxTopRight_def)
  qed
qed

lemma minBottomLeft_set:
  "set bs = set bs' \<Longrightarrow> minBottomLeft bs = minBottomLeft bs'"
  by (simp add: minBottomLeft_def)

lemma maxTopRight_set:
  "set bs = set bs' \<Longrightarrow> maxTopRight bs = maxTopRight bs'"
  by (simp add: maxTopRight_def)

lemma cornersOfLayers_set:
  assumes "set arts = {0, 1, 2, 3}"
  shows "cornersOfLayers h d fr arts =
     (if layerBoxes h d fr = [] then None
      else Some (minBottomLeft (layerBoxes h d fr), maxTopRight (layerBoxes h d fr)))"
proof -
  let ?bs = "filter (\<lambda>b. \<not> boxIsEmpty b) (map (getBox h d fr) arts)"
  have s: "set ?bs = set (layerBoxes h d fr)"
    using assms by (auto simp: layerBoxes_def)
  then have e: "?bs = [] \<longleftrightarrow> layerBoxes h d fr = []"
    by (metis set_empty)
  show ?thesis
    unfolding cornersOfLayers_def foldl_cornerStep_None
    using e minBottomLeft_set[OF s] maxTopRight_set[OF s] by simp
qed


lemma hasBox_layerBoxes: "hasBox h d \<longleftrightarrow> layerBoxes h d (frameCurrent h) \<noteq> []"
  by (simp add: hasBox_def layerBoxes_def)

lemma artLayerCorners_hasBox:
  "artLayerCorners h d (frameCurrent h) =
     (if hasBox h d
      then Some (minBottomLeft (layerBoxes h d (frameCurrent h)), maxTopRight (layerBoxes h d (frameCurrent h)))
      else None)"
  unfolding artLayerCorners_def hasBox_layerBoxes
  by (subst cornersOfLayers_set) auto

subsection \<open>Rounding and the plain write\<close>

lemma floor_plus_half: "\<lfloor>(of_int k :: rat) + 1 / 2\<rfloor> = k"
  by (simp add: floor_eq_iff)

lemma toFixedParseFloat_of_int: "toFixedParseFloat f (of_int n) = of_int n"
proof -
  have a: "\<lfloor>(of_int n :: rat) * 10 ^ f + 1 / 2\<rfloor> = n * 10 ^ f"
    using floor_plus_half[of "n * 10 ^ f"] by simp
  have b: "\<lfloor>- (of_int n :: rat) * 10 ^ f + 1 / 2\<rfloor> = - n * 10 ^ f"
    using floor_plus_half[of "- n * 10 ^ f"] by simp
  show ?thesis
    unfolding toFixedParseFloat_def using a b by simp
qed

lemma toFixedParseFloat_numeral [simp]: "toFixedParseFloat f (numeral w) = numeral w"
  using toFixedParseFloat_of_int[of f "numeral w"] by simp

lemma toFixedParseFloat_zero [simp]: "toFixedParseFloat f 0 = 0"
  using toFixedParseFloat_of_int[of f 0] by simp

lemma toFixedParseFloat_one [simp]: "toFixedParseFloat f 1 = 1"
  using toFixedParseFloat_of_int[of f 1] by simp

lemma toFixedParseFloat_neg_numeral [simp]: "toFixedParseFloat f (- numeral w) = - numeral w"
  using toFixedParseFloat_of_int[of f "- numeral w"] by simp


subsection \<open>The walk up the source chain\<close>

lemma upstream_0 [simp]: "upstream h 0 n = n"
  by (simp add: upstream_def)

lemma upstream_Suc: "upstream h (Suc k) n = upstream h k (srcNode h n 0)"
  unfolding upstream_def by (rule funpow_Suc_right[THEN fun_cong, simplified comp_def])

text \<open>The loop returns a node exactly when it meets a peg before the bound and before the end of the chain.\<close>

lemma chainLoop_found:
  "chainLoop h N s \<noteq> '''' \<Longrightarrow>
     \<exists>k<N. chainLoop h N s = upstream h k s \<and> nodeType h (upstream h k s) = ''PEG'' \<and>
           (\<forall>j<k. upstream h j s \<noteq> '''' \<and> nodeType h (upstream h j s) \<noteq> ''PEG'')"
proof (induction N arbitrary: s)
  case 0
  then show ?case by simp
next
  case (Suc N)
  show ?case
  proof (cases "s = ''''")
    case True
    with Suc.prems show ?thesis by simp
  next
    case False
    show ?thesis
    proof (cases "nodeType h s = ''PEG''")
      case True
      with False have "chainLoop h (Suc N) s = upstream h 0 s" by simp
      with True show ?thesis by force
    next
      case notPeg: False
      with False have e: "chainLoop h (Suc N) s = chainLoop h N (srcNode h s 0)" by simp
      with Suc.prems have "chainLoop h N (srcNode h s 0) \<noteq> ''''" by simp
      from Suc.IH[OF this] obtain k where k: "k < N"
        "chainLoop h N (srcNode h s 0) = upstream h k (srcNode h s 0)"
        "nodeType h (upstream h k (srcNode h s 0)) = ''PEG''"
        "\<forall>j<k. upstream h j (srcNode h s 0) \<noteq> '''' \<and> nodeType h (upstream h j (srcNode h s 0)) \<noteq> ''PEG''"
        by blast
      have "\<forall>j<Suc k. upstream h j s \<noteq> '''' \<and> nodeType h (upstream h j s) \<noteq> ''PEG''"
      proof (intro allI impI)
        fix j assume "j < Suc k"
        then show "upstream h j s \<noteq> '''' \<and> nodeType h (upstream h j s) \<noteq> ''PEG''"
          using k(4) False notPeg by (cases j) (simp_all add: upstream_Suc)
      qed
      with k e show ?thesis
        by (intro exI[of _ "Suc k"]) (simp add: upstream_Suc)
    qed
  qed
qed

lemma chainLoop_empty_iff:
  "chainLoop h N s = '''' \<longleftrightarrow>
     (\<exists>k<N. upstream h k s = '''' \<and>
            (\<forall>j<k. upstream h j s \<noteq> '''' \<and> nodeType h (upstream h j s) \<noteq> ''PEG'')) \<or>
     (\<forall>j<N. upstream h j s \<noteq> '''' \<and> nodeType h (upstream h j s) \<noteq> ''PEG'')"
proof (induction N arbitrary: s)
  case 0
  show ?case by simp
next
  case (Suc N)
  let ?s' = "srcNode h s 0"
  show ?case
  proof (cases "s = ''''")
    case True
    then have "upstream h 0 s = ''''" by simp
    then have "\<exists>k<Suc N. upstream h k s = '''' \<and>
            (\<forall>j<k. upstream h j s \<noteq> '''' \<and> nodeType h (upstream h j s) \<noteq> ''PEG'')"
      by (intro exI[of _ 0]) simp
    with True show ?thesis by simp
  next
    case False
    show ?thesis
    proof (cases "nodeType h s = ''PEG''")
      case True
      have "\<not> (\<exists>k<Suc N. upstream h k s = '''' \<and>
            (\<forall>j<k. upstream h j s \<noteq> '''' \<and> nodeType h (upstream h j s) \<noteq> ''PEG''))"
      proof
        assume "\<exists>k<Suc N. upstream h k s = '''' \<and>
            (\<forall>j<k. upstream h j s \<noteq> '''' \<and> nodeType h (upstream h j s) \<noteq> ''PEG'')"
        then obtain k where k: "upstream h k s = ''''"
          "\<forall>j<k. upstream h j s \<noteq> '''' \<and> nodeType h (upstream h j s) \<noteq> ''PEG''" by blast
        from k(1) False have "0 < k" by (cases k) simp_all
        with k(2) have "nodeType h (upstream h 0 s) \<noteq> ''PEG''" by blast
        with True show False by simp
      qed
      moreover have "\<not> (\<forall>j<Suc N. upstream h j s \<noteq> '''' \<and> nodeType h (upstream h j s) \<noteq> ''PEG'')"
        using True by (auto intro: exI[of _ 0])
      ultimately show ?thesis using False True by simp
    next
      case notPeg: False
      have e: "chainLoop h (Suc N) s = chainLoop h N ?s'" using False notPeg by simp
      have A: "(\<exists>k<Suc N. upstream h k s = '''' \<and>
            (\<forall>j<k. upstream h j s \<noteq> '''' \<and> nodeType h (upstream h j s) \<noteq> ''PEG'')) \<longleftrightarrow>
          (\<exists>k<N. upstream h k ?s' = '''' \<and>
            (\<forall>j<k. upstream h j ?s' \<noteq> '''' \<and> nodeType h (upstream h j ?s') \<noteq> ''PEG''))"
        (is "?L \<longleftrightarrow> ?R")
      proof
        assume ?L
        then obtain k where k: "k < Suc N" "upstream h k s = ''''"
          "\<forall>j<k. upstream h j s \<noteq> '''' \<and> nodeType h (upstream h j s) \<noteq> ''PEG''" by blast
        from k(2) False obtain k' where k': "k = Suc k'" by (cases k) simp_all
        have "\<forall>j<k'. upstream h j ?s' \<noteq> '''' \<and> nodeType h (upstream h j ?s') \<noteq> ''PEG''"
          using k(3) k' by (metis Suc_less_eq upstream_Suc)
        with k k' show ?R by (intro exI[of _ k']) (simp add: upstream_Suc)
      next
        assume ?R
        then obtain k where k: "k < N" "upstream h k ?s' = ''''"
          "\<forall>j<k. upstream h j ?s' \<noteq> '''' \<and> nodeType h (upstream h j ?s') \<noteq> ''PEG''" by blast
        have "\<forall>j<Suc k. upstream h j s \<noteq> '''' \<and> nodeType h (upstream h j s) \<noteq> ''PEG''"
        proof (intro allI impI)
          fix j assume "j < Suc k"
          then show "upstream h j s \<noteq> '''' \<and> nodeType h (upstream h j s) \<noteq> ''PEG''"
            using k(3) False notPeg by (cases j) (simp_all add: upstream_Suc)
        qed
        with k show ?L by (intro exI[of _ "Suc k"]) (simp add: upstream_Suc)
      qed
      have B: "(\<forall>j<Suc N. upstream h j s \<noteq> '''' \<and> nodeType h (upstream h j s) \<noteq> ''PEG'') \<longleftrightarrow>
          (\<forall>j<N. upstream h j ?s' \<noteq> '''' \<and> nodeType h (upstream h j ?s') \<noteq> ''PEG'')"
        (is "?L \<longleftrightarrow> ?R")
      proof
        assume l: ?L
        show ?R
        proof (intro allI impI)
          fix j assume "j < N"
          then have "Suc j < Suc N" by simp
          with l have "upstream h (Suc j) s \<noteq> '''' \<and> nodeType h (upstream h (Suc j) s) \<noteq> ''PEG''"
            by blast
          then show "upstream h j ?s' \<noteq> '''' \<and> nodeType h (upstream h j ?s') \<noteq> ''PEG''"
            by (simp add: upstream_Suc)
        qed
      next
        assume r: ?R
        show ?L
        proof (intro allI impI)
          fix j assume "j < Suc N"
          then show "upstream h j s \<noteq> '''' \<and> nodeType h (upstream h j s) \<noteq> ''PEG''"
            using r False notPeg by (cases j) (simp_all add: upstream_Suc)
        qed
      qed
      show ?thesis unfolding e Suc.IH[of ?s'] A B ..
    qed
  qed
qed

lemma noPegBefore_shift:
  "noPegBefore h (Suc k) n \<longleftrightarrow>
     (\<forall>j<k. upstream h j (srcNode h n 0) \<noteq> '''' \<and> nodeType h (upstream h j (srcNode h n 0)) \<noteq> ''PEG'')"
proof
  assume l: "noPegBefore h (Suc k) n"
  show "\<forall>j<k. upstream h j (srcNode h n 0) \<noteq> '''' \<and> nodeType h (upstream h j (srcNode h n 0)) \<noteq> ''PEG''"
  proof (intro allI impI)
    fix j assume "j < k"
    then have "Suc j \<in> {1..<Suc k}" by simp
    with l have "upstream h (Suc j) n \<noteq> '''' \<and> nodeType h (upstream h (Suc j) n) \<noteq> ''PEG''"
      unfolding noPegBefore_def by blast
    then show "upstream h j (srcNode h n 0) \<noteq> '''' \<and> nodeType h (upstream h j (srcNode h n 0)) \<noteq> ''PEG''"
      by (simp add: upstream_Suc)
  qed
next
  assume r: "\<forall>j<k. upstream h j (srcNode h n 0) \<noteq> '''' \<and> nodeType h (upstream h j (srcNode h n 0)) \<noteq> ''PEG''"
  show "noPegBefore h (Suc k) n"
    unfolding noPegBefore_def
  proof
    fix j assume "j \<in> {1..<Suc k}"
    then obtain j' where "j = Suc j'" "j' < k" by (cases j) auto
    with r show "upstream h j n \<noteq> '''' \<and> nodeType h (upstream h j n) \<noteq> ''PEG''"
      by (simp add: upstream_Suc)
  qed
qed

lemma traverse_found:
  assumes "traverseChainUpToFindPeg h n \<noteq> ''''"
  shows "\<exists>k \<in> {1..numberOfSubNodes h (parentNode h n)}.
           traverseChainUpToFindPeg h n = upstream h k n \<and>
           nodeType h (upstream h k n) = ''PEG'' \<and> noPegBefore h k n"
proof -
  let ?N = "numberOfSubNodes h (parentNode h n)"
  have t: "traverseChainUpToFindPeg h n = chainLoop h ?N (srcNode h n 0)"
    by (simp add: traverseChainUpToFindPeg_def)
  with assms have "chainLoop h ?N (srcNode h n 0) \<noteq> ''''" by simp
  from chainLoop_found[OF this] obtain k where k: "k < ?N"
    "chainLoop h ?N (srcNode h n 0) = upstream h k (srcNode h n 0)"
    "nodeType h (upstream h k (srcNode h n 0)) = ''PEG''"
    "\<forall>j<k. upstream h j (srcNode h n 0) \<noteq> '''' \<and> nodeType h (upstream h j (srcNode h n 0)) \<noteq> ''PEG''"
    by blast
  have "Suc k \<in> {1..?N}" using k(1) by simp
  moreover have "traverseChainUpToFindPeg h n = upstream h (Suc k) n"
    using t k(2) by (simp add: upstream_Suc)
  moreover have "nodeType h (upstream h (Suc k) n) = ''PEG''"
    using k(3) by (simp add: upstream_Suc)
  moreover have "noPegBefore h (Suc k) n"
    using k(4) by (simp add: noPegBefore_shift)
  ultimately show ?thesis by blast
qed

lemma traverse_empty_iff:
  "traverseChainUpToFindPeg h n = '''' \<longleftrightarrow>
     (\<exists>k \<in> {1..numberOfSubNodes h (parentNode h n)}. upstream h k n = '''' \<and> noPegBefore h k n) \<or>
     noPegBefore h (Suc (numberOfSubNodes h (parentNode h n))) n"
proof -
  let ?N = "numberOfSubNodes h (parentNode h n)"
  let ?s = "srcNode h n 0"
  let ?ok = "\<lambda>k. \<forall>j<k. upstream h j ?s \<noteq> '''' \<and> nodeType h (upstream h j ?s) \<noteq> ''PEG''"
  have "(\<exists>k<?N. upstream h k ?s = '''' \<and> ?ok k) \<longleftrightarrow>
        (\<exists>k \<in> {1..?N}. upstream h k n = '''' \<and> noPegBefore h k n)" (is "?L \<longleftrightarrow> ?R")
  proof
    assume ?L
    then obtain k where "k < ?N" "upstream h k ?s = ''''" "?ok k" by blast
    then have "Suc k \<in> {1..?N}" "upstream h (Suc k) n = ''''" "noPegBefore h (Suc k) n"
      by (simp_all add: upstream_Suc noPegBefore_shift)
    then show ?R by blast
  next
    assume ?R
    then obtain k where k: "k \<in> {1..?N}" "upstream h k n = ''''" "noPegBefore h k n" by blast
    then obtain k' where k': "k = Suc k'" by (cases k) auto
    with k have "k' < ?N" "upstream h k' ?s = ''''" "?ok k'"
      by (simp_all add: upstream_Suc noPegBefore_shift)
    then show ?L by blast
  qed
  then show ?thesis
    by (simp add: traverseChainUpToFindPeg_def chainLoop_empty_iff noPegBefore_shift)
qed


lemma findPivotNode_None_iff:
  "findPivotNode h d = None \<longleftrightarrow>
     needsPeg h d \<and>
     (srcNode h d 0 = '''' \<or>
      (nodeType h (srcNode h d 0) \<noteq> ''PEG'' \<and> traverseChainUpToFindPeg h (srcNode h d 0) = ''''))"
  by (auto simp: findPivotNode_def needsPeg_def Let_def)


subsection \<open>The calls of one pass through the loop\<close>

lemma newCalls_noPeg:
  "findPivotNode h d = None \<Longrightarrow> newCalls h (processDrawing h d) = [Trace (NoParentPeg d)]"
  by (simp add: processDrawing_noPeg newCalls_append calls_emit)

lemma newCalls_empty:
  "findPivotNode h d = Some t \<Longrightarrow> \<not> hasBox h d \<Longrightarrow>
     newCalls h (processDrawing h d) = [Trace (EmptyAtFrame d (frameCurrent h))]"
  by (simp add: processDrawing_empty artLayerCorners_hasBox newCalls_append calls_emit)

lemma newCalls_plain:
  assumes "findPivotNode h d = Some t" and "hasBox h d" and "\<not> needsInverse h d t"
  shows "\<exists>v w. newCalls h (processDrawing h d) =
           [SetTextAttr t ''pivot.x'' 1 (NumVal v), SetTextAttr t ''pivot.y'' 1 (NumVal w)]"
proof -
  from assms(2) obtain bl tr where "artLayerCorners h d (frameCurrent h) = Some (bl, tr)"
    by (simp add: artLayerCorners_hasBox)
  from processDrawing_plain[OF assms(1) this assms(3)] show ?thesis
    by (simp add: newCalls_append calls_writePivot)
qed

lemma calls_inverse:
  "calls (writePivot t (snd (inverseDrawingPivot h t fr c)) (fst (inverseDrawingPivot h t fr c))) =
     calls h @
       [SetTextAttr t ''pivot.x'' 1 (NumVal 0), SetTextAttr t ''pivot.y'' 1 (NumVal 0),
        SetTextAttr t ''pivot.x'' 1 (NumVal (fromOGLX h (px (snd (inverseDrawingPivot h t fr c))))),
        SetTextAttr t ''pivot.y'' 1 (NumVal (fromOGLY h (py (snd (inverseDrawingPivot h t fr c)))))]"
  by (simp add: calls_writePivot fst_inverseDrawingPivot setTextAttr_def)

lemma newCalls_inverse:
  assumes "findPivotNode h d = Some t" and "hasBox h d" and "needsInverse h d t"
  shows "\<exists>v w. newCalls h (processDrawing h d) =
           [SetTextAttr t ''pivot.x'' 1 (NumVal 0), SetTextAttr t ''pivot.y'' 1 (NumVal 0),
            SetTextAttr t ''pivot.x'' 1 (NumVal v), SetTextAttr t ''pivot.y'' 1 (NumVal w)]"
proof -
  from assms(2) obtain bl tr where "artLayerCorners h d (frameCurrent h) = Some (bl, tr)"
    by (simp add: artLayerCorners_hasBox)
  from processDrawing_inverse[OF assms(1) this assms(3)] show ?thesis
    by (simp add: newCalls_append calls_inverse)
qed

lemma writtenNodes_processDrawing:
  "writtenNodes (newCalls h (processDrawing h d)) =
     (case findPivotNode h d of None \<Rightarrow> {} | Some t \<Rightarrow> if hasBox h d then {t} else {})"
proof (cases "findPivotNode h d")
  case None
  then show ?thesis by (simp add: newCalls_noPeg writtenNodes_def)
next
  case (Some t)
  show ?thesis
  proof (cases "hasBox h d")
    case False
    with Some show ?thesis by (simp add: newCalls_empty writtenNodes_def)
  next
    case True
    show ?thesis
    proof (cases "needsInverse h d t")
      case True
      from newCalls_inverse[OF Some \<open>hasBox h d\<close> True] Some \<open>hasBox h d\<close>
      show ?thesis by (auto simp: writtenNodes_def)
    next
      case False
      from newCalls_plain[OF Some \<open>hasBox h d\<close> False] Some \<open>hasBox h d\<close>
      show ?thesis by (auto simp: writtenNodes_def)
    qed
  qed
qed

subsection \<open>The example scene\<close>

lemma demo_findPivotNode:
  "findPivotNode demo ''A'' = Some ''A''"
  "findPivotNode demo ''B'' = Some ''P''"
  "findPivotNode demo ''C'' = None"
  "findPivotNode demo ''D'' = None"
  "findPivotNode demo ''E'' = Some ''E''"
  by (simp_all add: findPivotNode_def traverseChainUpToFindPeg_def getTextAttr_def demo_def
      parentPegMode_def drawingLayerMode_def eval_nat_numeral)

lemma demo_hasBox:
  "hasBox demo ''A''" "hasBox demo ''B''" "hasBox demo ''C''"
  "\<not> hasBox demo ''D''" "\<not> hasBox demo ''E''"
  by (simp_all add: hasBox_def demo_def)



lemma demo_getDrawings:
  "getDrawings demo (selectedNodes demo) = Some [''A'', ''D'', ''E'', ''B'', ''C'']"
proof -
  have "list_all2 (unfolds demo) [''G''] [demoTree]" using demo_unfolds by simp
  from getDrawings_unfolds[OF this] show ?thesis
    by (simp add: demoTree_def demo_def)
qed

lemma demo_fields:
  "frameCurrent demo = 7" "calls demo = []" "fromOGLX demo = (\<lambda>v. v * 2)" "fromOGLY demo = (\<lambda>v. v * 4)"
  "toOGLX demo = (\<lambda>v. v / 2)" "toOGLY demo = (\<lambda>v. v / 4)"
  by (simp_all add: demo_def)

subsection \<open>What one pass changes\<close>

lemma sameButPivots_refl: "sameButPivots T h h"
  by (simp add: sameButPivots_def sameScene_refl)

lemma sameButPivots_trans:
  "sameButPivots T h h1 \<Longrightarrow> sameButPivots U h1 h2 \<Longrightarrow> sameButPivots (T \<union> U) h h2"
proof -
  assume a: "sameButPivots T h h1" and b: "sameButPivots U h1 h2"
  have "sameScene h h2" using a b sameScene_trans[of h h1 h2] by (simp add: sameButPivots_def)
  moreover have "\<forall>n a. textAttr h2 n a \<noteq> textAttr h n a \<longrightarrow> n \<in> T \<union> U \<and> pivotAttr a"
  proof (intro allI impI)
    fix n a assume "textAttr h2 n a \<noteq> textAttr h n a"
    then have "textAttr h2 n a \<noteq> textAttr h1 n a \<or> textAttr h1 n a \<noteq> textAttr h n a" by auto
    then show "n \<in> T \<union> U \<and> pivotAttr a"
      using a b unfolding sameButPivots_def by blast
  qed
  ultimately show ?thesis by (simp add: sameButPivots_def)
qed

lemma sameButPivots_emit: "sameButPivots {} h (emit e h)"
  by (simp add: sameButPivots_def sameScene_emit textAttr_emit)

lemma sameButPivots_setTextAttr:
  "pivotAttr a \<Longrightarrow> sameButPivots {t} h (setTextAttr t a fr v h)"
  by (auto simp: sameButPivots_def sameScene_setTextAttr textAttr_setTextAttr split: if_splits)

lemma sameButPivots_writePivot: "sameButPivots {t} h (writePivot t c h)"
  by (auto simp: sameButPivots_def sameScene_writePivot textAttr_writePivot pivotAttr_def split: if_splits)

lemma sameButPivots_fst_inverse: "sameButPivots {t} h (fst (inverseDrawingPivot h t fr c))"
proof -
  have "sameButPivots ({t} \<union> {t}) h
          (setTextAttr t ''pivot.y'' 1 (NumVal 0) (setTextAttr t ''pivot.x'' 1 (NumVal 0) h))"
    by (rule sameButPivots_trans; rule sameButPivots_setTextAttr; simp add: pivotAttr_def)
  then show ?thesis by (simp add: fst_inverseDrawingPivot)
qed

lemma sameButPivots_processDrawing: "sameButPivots (writeTargets h d) h (processDrawing h d)"
proof (cases "findPivotNode h d")
  case None
  then show ?thesis
    using sameButPivots_emit[of h] by (simp add: processDrawing_noPeg writeTargets_def)
next
  case (Some t)
  show ?thesis
  proof (cases "hasBox h d")
    case False
    with Some show ?thesis
      using sameButPivots_emit[of h]
      by (simp add: processDrawing_empty artLayerCorners_hasBox writeTargets_def)
  next
    case True
    then obtain bl tr where c: "artLayerCorners h d (frameCurrent h) = Some (bl, tr)"
      by (simp add: artLayerCorners_hasBox)
    have w: "writeTargets h d = {t}" using Some True by (simp add: writeTargets_def)
    show ?thesis
    proof (cases "needsInverse h d t")
      case False
      show ?thesis
        unfolding processDrawing_plain[OF Some c False] w by (rule sameButPivots_writePivot)
    next
      case inv: True
      have "sameButPivots ({t} \<union> {t}) h
              (writePivot t (snd (inverseDrawingPivot h t (frameCurrent h) (midPointAt bl tr (1 / 2))))
                 (fst (inverseDrawingPivot h t (frameCurrent h) (midPointAt bl tr (1 / 2)))))"
        by (rule sameButPivots_trans[OF sameButPivots_fst_inverse sameButPivots_writePivot])
      then show ?thesis
        unfolding processDrawing_inverse[OF Some c inv] w by simp
    qed
  qed
qed

lemma pivotAttr_useDrawingPivot [simp]: "\<not> pivotAttr ''useDrawingPivot''"
  by (simp add: pivotAttr_def)

lemma sameButPivots_useDrawingPivot:
  "sameButPivots T h h' \<Longrightarrow> textAttr h' d ''useDrawingPivot'' = textAttr h d ''useDrawingPivot''"
  unfolding sameButPivots_def using pivotAttr_useDrawingPivot by blast

lemma sameButPivots_findPivotNode:
  "sameButPivots T h h' \<Longrightarrow> findPivotNode h' d = findPivotNode h d"
proof -
  assume a: "sameButPivots T h h'"
  then have "sameScene h h'" by (simp add: sameButPivots_def)
  then show ?thesis using sameButPivots_useDrawingPivot[OF a] by (rule findPivotNode_cong)
qed

lemma sameButPivots_hasBox:
  "sameButPivots T h h' \<Longrightarrow> hasBox h' d = hasBox h d"
  by (simp add: sameButPivots_def sameScene_def hasBox_def)

lemma sameButPivots_needsInverse:
  "sameButPivots T h h' \<Longrightarrow> needsInverse h' d t = needsInverse h d t"
  by (rule needsInverse_cong) (rule sameButPivots_useDrawingPivot)

lemma sameButPivots_writeTargets:
  "sameButPivots T h h' \<Longrightarrow> writeTargets h' d = writeTargets h d"
  using sameButPivots_findPivotNode[of T h h' d] sameButPivots_hasBox[of T h h' d]
  by (simp add: writeTargets_def split: option.splits)

lemma sameButPivots_writesPerPass:
  "sameButPivots T h h' \<Longrightarrow> writesPerPass h' d = writesPerPass h d"
  using sameButPivots_findPivotNode[of T h h' d] sameButPivots_hasBox[of T h h' d]
    sameButPivots_needsInverse[of T h h' d]
  by (simp add: writesPerPass_def split: option.splits)

text \<open>The shape of the calls of one pass.\<close>

lemma calls_processDrawing:
  "\<exists>es. calls (processDrawing h d) = calls h @ es \<and> list_all (pivotWrite (writeTargets h d)) es \<and>
        length (filter isSetTextAttr es) = writesPerPass h d \<and>
        writtenNodes es = writeTargets h d"
proof (cases "findPivotNode h d")
  case None
  then show ?thesis
    by (simp add: processDrawing_noPeg calls_emit writeTargets_def writesPerPass_def writtenNodes_def)
next
  case (Some t)
  show ?thesis
  proof (cases "hasBox h d")
    case False
    with Some show ?thesis
      by (simp add: processDrawing_empty artLayerCorners_hasBox calls_emit writeTargets_def
          writesPerPass_def writtenNodes_def)
  next
    case True
    then obtain bl tr where c: "artLayerCorners h d (frameCurrent h) = Some (bl, tr)"
      by (simp add: artLayerCorners_hasBox)
    show ?thesis
    proof (cases "needsInverse h d t")
      case False
      show ?thesis
        unfolding processDrawing_plain[OF Some c False] calls_writePivot
        using Some True False
        by (simp add: writeTargets_def writesPerPass_def writtenNodes_def pivotAttr_def)
    next
      case inv: True
      show ?thesis
        unfolding processDrawing_inverse[OF Some c inv] calls_inverse
        using Some True inv
        by (simp add: writeTargets_def writesPerPass_def writtenNodes_def pivotAttr_def)
    qed
  qed
qed

subsection \<open>What the whole loop changes\<close>

lemma mainLoop_snoc: "mainLoop h (ds @ [d]) = processDrawing (mainLoop h ds) d"
  by (simp add: mainLoop_def)

lemma mainLoop_Cons: "mainLoop h (d # ds) = mainLoop (processDrawing h d) ds"
  by (simp add: mainLoop_def)

lemma sameButPivots_mainLoop:
  "sameButPivots (\<Union>d \<in> set ds. writeTargets h d) h (mainLoop h ds)"
proof (induction ds rule: rev_induct)
  case Nil
  show ?case by (simp add: mainLoop_def sameButPivots_refl)
next
  case (snoc d ds)
  have "sameButPivots (writeTargets h d) (mainLoop h ds) (processDrawing (mainLoop h ds) d)"
    using sameButPivots_processDrawing[of "mainLoop h ds" d]
      sameButPivots_writeTargets[OF snoc.IH, of d] by simp
  from sameButPivots_trans[OF snoc.IH this] show ?case
    by (simp add: mainLoop_snoc Un_commute)
qed

lemma calls_mainLoop:
  "\<exists>es. calls (mainLoop h ds) = calls h @ es \<and>
        list_all (pivotWrite (\<Union>d \<in> set ds. writeTargets h d)) es \<and>
        length (filter isSetTextAttr es) = (\<Sum>d\<leftarrow>ds. writesPerPass h d) \<and>
        writtenNodes es = (\<Union>d \<in> set ds. writeTargets h d)"
proof (induction ds rule: rev_induct)
  case Nil
  show ?case by (simp add: mainLoop_def writtenNodes_def)
next
  case (snoc d ds)
  let ?m = "mainLoop h ds"
  from snoc.IH obtain es where es: "calls ?m = calls h @ es"
    "list_all (pivotWrite (\<Union>d \<in> set ds. writeTargets h d)) es"
    "length (filter isSetTextAttr es) = (\<Sum>d\<leftarrow>ds. writesPerPass h d)"
    "writtenNodes es = (\<Union>d \<in> set ds. writeTargets h d)" by blast
  have s: "sameButPivots (\<Union>d \<in> set ds. writeTargets h d) h ?m" by (rule sameButPivots_mainLoop)
  from calls_processDrawing[of ?m d] obtain fs where fs:
    "calls (processDrawing ?m d) = calls ?m @ fs"
    "list_all (pivotWrite (writeTargets h d)) fs"
    "length (filter isSetTextAttr fs) = writesPerPass h d"
    "writtenNodes fs = writeTargets h d"
    unfolding sameButPivots_writeTargets[OF s] sameButPivots_writesPerPass[OF s] by blast
  have mono: "\<And>T U e. T \<subseteq> U \<Longrightarrow> pivotWrite T e \<Longrightarrow> pivotWrite U e"
  proof -
    fix T U :: "node set" and e
    assume "T \<subseteq> U" "pivotWrite T e"
    then show "pivotWrite U e" by (cases e) auto
  qed
  have "list_all (pivotWrite (\<Union>d \<in> set (ds @ [d]). writeTargets h d)) (es @ fs)"
    using es(2) fs(2) mono[of "\<Union>d \<in> set ds. writeTargets h d" "\<Union>d \<in> set (ds @ [d]). writeTargets h d"]
      mono[of "writeTargets h d" "\<Union>d \<in> set (ds @ [d]). writeTargets h d"]
    by (auto simp: list_all_iff)
  moreover have "calls (mainLoop h (ds @ [d])) = calls h @ (es @ fs)"
    using es(1) fs(1) by (simp add: mainLoop_snoc)
  moreover have "length (filter isSetTextAttr (es @ fs)) = (\<Sum>d\<leftarrow>ds @ [d]. writesPerPass h d)"
    using es(3) fs(3) by simp
  moreover have "writtenNodes (es @ fs) = (\<Union>d \<in> set (ds @ [d]). writeTargets h d)"
    using es(4) fs(4) by (auto simp: writtenNodes_def)
  ultimately show ?case by blast
qed


lemma demo_traverse:
  "traverseChainUpToFindPeg demo ''Q'' = ''P''"
  "numberOfSubNodes demo (parentNode demo ''Q'') = 6"
  "srcNode demo ''C'' 0 = ''''"
  by (simp_all add: traverseChainUpToFindPeg_def demo_def eval_nat_numeral)

lemma demoShallow_facts:
  "traverseChainUpToFindPeg demoShallow ''Q'' = ''''"
  "numberOfSubNodes demoShallow (parentNode demoShallow ''Q'') = 0"
  "srcNode demoShallow ''B'' 0 = ''Q''"
  "nodeType demoShallow ''Q'' \<noteq> ''PEG''"
  "needsPeg demoShallow ''B''"
  by (simp_all add: traverseChainUpToFindPeg_def demoShallow_def demo_def needsPeg_def)






subsection \<open>The whole run\<close>

lemma count_list_concat:
  "count_list (concat xss) d = sum_list (map (\<lambda>xs. count_list xs d) xss)"
  by (induction xss) simp_all

lemma count_drawingsOf: "count_list (drawingsOf h t) d = occurrences h d t"
proof (induction h t rule: drawingsOf.induct)
  case (1 h n ts)
  show ?case
  proof (cases "nodeType h n = ''READ''")
    case True
    then show ?thesis by simp
  next
    case False
    show ?thesis
    proof (cases "nodeType h n = ''GROUP''")
      case True
      have "map (\<lambda>t. count_list (drawingsOf h t) d) ts = map (occurrences h d) ts"
        using "1.IH"[OF False True] by (intro map_cong) simp_all
      then have e: "sum_list (map (\<lambda>t. count_list (drawingsOf h t) d) ts) =
                    sum_list (map (occurrences h d) ts)"
        by (rule arg_cong)
      have "count_list (drawingsOf h (NTree n ts)) d =
              sum_list (map (\<lambda>t. count_list (drawingsOf h t) d) ts)"
        using False True by (simp add: count_list_concat comp_def)
      also note e
      also have "sum_list (map (occurrences h d) ts) = occurrences h d (NTree n ts)"
        using False True by simp
      finally show ?thesis .
    next
      case notGroup: False
      with False show ?thesis by simp
    qed
  qed
qed

lemma count_forest:
  "count_list (concat (map (drawingsOf h) ts)) d = (\<Sum>t\<leftarrow>ts. occurrences h d t)"
  by (simp add: count_list_concat comp_def count_drawingsOf)

lemma ANM_nonempty:
  "getDrawings h (selectedNodes h) = Some sNodes \<Longrightarrow> sNodes \<noteq> [] \<Longrightarrow>
     ANM_Set_Layer_Pivots_At_Center_Of_Drawings h =
       Some (emit (EndUndoRedoAccum '''') (mainLoop (emit (BeginUndoRedoAccum undoName) h) sNodes))"
  by (simp add: ANM_Set_Layer_Pivots_At_Center_Of_Drawings_def)

lemma ANM_empty:
  "getDrawings h (selectedNodes h) = Some [] \<Longrightarrow>
     ANM_Set_Layer_Pivots_At_Center_Of_Drawings h = Some (emit (Information noSelectionMessage) h)"
  by (simp add: ANM_Set_Layer_Pivots_At_Center_Of_Drawings_def)

lemma ANM_Some_getDrawings:
  "ANM_Set_Layer_Pivots_At_Center_Of_Drawings h = Some h' \<Longrightarrow>
     \<exists>sNodes. getDrawings h (selectedNodes h) = Some sNodes"
  by (simp add: ANM_Set_Layer_Pivots_At_Center_Of_Drawings_def split: option.splits)

lemma run_effect:
  assumes "getDrawings h (selectedNodes h) = Some sNodes"
  shows "\<exists>h' es. ANM_Set_Layer_Pivots_At_Center_Of_Drawings h = Some h' \<and>
           calls h' = calls h @ es \<and>
           list_all (pivotWrite (\<Union>d \<in> set sNodes. writeTargets h d)) es \<and>
           length (filter isSetTextAttr es) = (\<Sum>d\<leftarrow>sNodes. writesPerPass h d) \<and>
           sameButPivots (\<Union>d \<in> set sNodes. writeTargets h d) h h'"
proof (cases "sNodes = []")
  case True
  with assms have "ANM_Set_Layer_Pivots_At_Center_Of_Drawings h = Some (emit (Information noSelectionMessage) h)"
    by (simp add: ANM_empty)
  moreover have "calls (emit (Information noSelectionMessage) h) = calls h @ [Information noSelectionMessage]"
    by (rule calls_emit)
  moreover have "sameButPivots (\<Union>d \<in> set sNodes. writeTargets h d) h (emit (Information noSelectionMessage) h)"
    using True sameButPivots_emit[of h] by simp
  ultimately show ?thesis using True by simp
next
  case False
  let ?T = "\<Union>d \<in> set sNodes. writeTargets h d"
  let ?h0 = "emit (BeginUndoRedoAccum undoName) h"
  let ?m = "mainLoop ?h0 sNodes"
  let ?h' = "emit (EndUndoRedoAccum '''') ?m"
  have s0: "sameButPivots {} h ?h0" by (rule sameButPivots_emit)
  have T0: "(\<Union>d \<in> set sNodes. writeTargets ?h0 d) = ?T"
    using sameButPivots_writeTargets[OF s0] by simp
  have W0: "(\<Sum>d\<leftarrow>sNodes. writesPerPass ?h0 d) = (\<Sum>d\<leftarrow>sNodes. writesPerPass h d)"
    using sameButPivots_writesPerPass[OF s0] by simp
  from calls_mainLoop[of ?h0 sNodes] obtain es where es: "calls ?m = calls ?h0 @ es"
    "list_all (pivotWrite ?T) es"
    "length (filter isSetTextAttr es) = (\<Sum>d\<leftarrow>sNodes. writesPerPass h d)"
    unfolding T0 W0 by blast
  have "sameButPivots ?T ?h0 ?m" using sameButPivots_mainLoop[of ?h0 sNodes] unfolding T0 .
  from sameButPivots_trans[OF s0 this] have "sameButPivots ?T h ?m" by simp
  from sameButPivots_trans[OF this sameButPivots_emit[of ?m "EndUndoRedoAccum ''''"]]
  have sp: "sameButPivots ?T h ?h'" by simp
  have c: "calls ?h' = calls h @ ([BeginUndoRedoAccum undoName] @ es @ [EndUndoRedoAccum ''''])"
    using es(1) by (simp add: calls_emit)
  have "list_all (pivotWrite ?T) ([BeginUndoRedoAccum undoName] @ es @ [EndUndoRedoAccum ''''])"
    using es(2) by simp
  moreover have "length (filter isSetTextAttr ([BeginUndoRedoAccum undoName] @ es @ [EndUndoRedoAccum '''']))
      = (\<Sum>d\<leftarrow>sNodes. writesPerPass h d)"
    using es(3) by simp
  ultimately show ?thesis
    using ANM_nonempty[OF assms False] c sp by blast
qed

lemma writeTargets_Union:
  "(\<Union>d \<in> set ds. writeTargets h d) = {t. \<exists>d \<in> set ds. findPivotNode h d = Some t \<and> hasBox h d}"
  by (auto simp: writeTargets_def split: option.splits if_splits)

lemma demoTwice_unfolds:
  "list_all2 (unfolds demoTwice) (selectedNodes demoTwice) [NTree ''A'' [], demoTree]"
proof -
  have a: "unfolds demoTwice ''A'' (NTree ''A'' [])"
    by (rule unfolds_other) (simp add: demoTwice_def demo_def)
  have g: "unfolds demoTwice ''G'' demoTree"
    unfolding demoTree_def
    by (rule unfolds_group; simp add: demoTwice_def demo_def)
       (intro conjI; (rule unfolds_other, simp add: demoTwice_def demo_def)?; rule unfolds_group;
        simp add: demoTwice_def demo_def; intro conjI; rule unfolds_other; simp add: demoTwice_def demo_def)
  show ?thesis using a g by (simp add: demoTwice_def)
qed

lemma demoTwice_getDrawings:
  "getDrawings demoTwice (selectedNodes demoTwice) = Some [''A'', ''A'', ''D'', ''E'', ''B'', ''C'']"
  using getDrawings_unfolds[OF demoTwice_unfolds]
  by (simp add: demoTree_def demoTwice_def demo_def)

lemma demoTwice_writesPerPass:
  "writesPerPass demoTwice ''A'' = 4" "writesPerPass demoTwice ''B'' = 2"
  "writesPerPass demoTwice ''C'' = 0" "writesPerPass demoTwice ''D'' = 0"
  "writesPerPass demoTwice ''E'' = 0"
  by (simp_all add: writesPerPass_def findPivotNode_def traverseChainUpToFindPeg_def getTextAttr_def
      hasBox_def needsInverse_def demoTwice_def demo_def parentPegMode_def drawingLayerMode_def
      eval_nat_numeral)

lemma demo_targets:
  "{t. \<exists>d \<in> set [''A'', ''D'', ''E'', ''B'', ''C'']. findPivotNode demo d = Some t \<and> hasBox demo d}
     = {''A'', ''P''}"
  using demo_findPivotNode demo_hasBox by auto

section \<open>The claims\<close>








text \<open>
  C4. The search for a peg goes up the chain of first sources from the first source of
  the drawing. \<^verbatim>\<open>traverseChainUpToFindPeg\<close> looks at the sources \<open>1, 2, \<dots>\<close> of its
  argument and at no more of them than \<^verbatim>\<open>node.numberOfSubNodes\<close> of the argument's parent:
  what it returns, if not the empty string, is the first peg among them, with only
  nodes that are no pegs before it. It returns the empty string exactly when the chain
  ends within the bound before a peg is met, or when all sources up to the bound are
  nodes and none is a peg. The loop runs on its counter alone, so it always ends. No
  pivot node is found exactly when the drawing needs a peg and its first source is
  missing, or is no peg and the search above it fails; then the pass is the one line in
  the message log, and the loop goes on with the next drawing.
\<close>

theorem peg_search_is_bounded:
  "(traverseChainUpToFindPeg h lastNode \<noteq> '''' \<longrightarrow>
      (\<exists>k \<in> {1..numberOfSubNodes h (parentNode h lastNode)}.
          traverseChainUpToFindPeg h lastNode = upstream h k lastNode \<and>
          nodeType h (upstream h k lastNode) = ''PEG'' \<and> noPegBefore h k lastNode)) \<and>
   (traverseChainUpToFindPeg h lastNode = '''' \<longleftrightarrow>
      (\<exists>k \<in> {1..numberOfSubNodes h (parentNode h lastNode)}.
          upstream h k lastNode = '''' \<and> noPegBefore h k lastNode) \<or>
      noPegBefore h (Suc (numberOfSubNodes h (parentNode h lastNode))) lastNode) \<and>
   (findPivotNode h d = None \<longleftrightarrow>
      needsPeg h d \<and>
      (srcNode h d 0 = '''' \<or>
       (nodeType h (srcNode h d 0) \<noteq> ''PEG'' \<and> traverseChainUpToFindPeg h (srcNode h d 0) = ''''))) \<and>
   (findPivotNode h d = None \<longrightarrow>
      processDrawing h d = emit (Trace (NoParentPeg d)) h \<and>
      mainLoop h (d # ds) = mainLoop (emit (Trace (NoParentPeg d)) h) ds)"
proof (intro conjI impI)
  assume "traverseChainUpToFindPeg h lastNode \<noteq> ''''"
  then show "\<exists>k \<in> {1..numberOfSubNodes h (parentNode h lastNode)}.
          traverseChainUpToFindPeg h lastNode = upstream h k lastNode \<and>
          nodeType h (upstream h k lastNode) = ''PEG'' \<and> noPegBefore h k lastNode"
    by (rule traverse_found)
next
  show "traverseChainUpToFindPeg h lastNode = '''' \<longleftrightarrow>
      (\<exists>k \<in> {1..numberOfSubNodes h (parentNode h lastNode)}.
          upstream h k lastNode = '''' \<and> noPegBefore h k lastNode) \<or>
      noPegBefore h (Suc (numberOfSubNodes h (parentNode h lastNode))) lastNode"
    by (rule traverse_empty_iff)
next
  show "findPivotNode h d = None \<longleftrightarrow>
      needsPeg h d \<and>
      (srcNode h d 0 = '''' \<or>
       (nodeType h (srcNode h d 0) \<noteq> ''PEG'' \<and> traverseChainUpToFindPeg h (srcNode h d 0) = ''''))"
    by (rule findPivotNode_None_iff)
next
  assume n: "findPivotNode h d = None"
  then show "processDrawing h d = emit (Trace (NoParentPeg d)) h" by (rule processDrawing_noPeg)
  then show "mainLoop h (d # ds) = mainLoop (emit (Trace (NoParentPeg d)) h) ds"
    by (simp add: mainLoop_Cons)
qed

theorem peg_search_is_bounded_witness:
  "traverseChainUpToFindPeg demo ''Q'' = ''P'' \<and>
   ''P'' = upstream demo 1 ''Q'' \<and> nodeType demo ''P'' = ''PEG'' \<and>
   numberOfSubNodes demo (parentNode demo ''Q'') = 6 \<and>
   findPivotNode demo ''C'' = None \<and> srcNode demo ''C'' 0 = '''' \<and>
   mainLoop demo [''C'', ''B''] = mainLoop (emit (Trace (NoParentPeg ''C'')) demo) [''B''] \<and>
   numberOfSubNodes demoShallow (parentNode demoShallow ''Q'') = 0 \<and>
   traverseChainUpToFindPeg demoShallow ''Q'' = '''' \<and>
   findPivotNode demoShallow ''B'' = None \<and>
   processDrawing demoShallow ''B'' = emit (Trace (NoParentPeg ''B'')) demoShallow"
proof -
  have a: "traverseChainUpToFindPeg demo ''Q'' \<noteq> ''''" by (simp add: demo_traverse)
  from peg_search_is_bounded[of demo "''Q''" "''C''" "[''B'']", THEN conjunct1] a
  obtain k where "traverseChainUpToFindPeg demo ''Q'' = upstream demo k ''Q''"
    "nodeType demo (upstream demo k ''Q'') = ''PEG''" by blast
  then have "nodeType demo (traverseChainUpToFindPeg demo ''Q'') = ''PEG''" by simp
  then have p: "nodeType demo ''P'' = ''PEG''" by (simp add: demo_traverse)
  have u: "''P'' = upstream demo 1 ''Q''" by (simp add: upstream_def demo_def)
  from peg_search_is_bounded[of demo "''Q''" "''C''" "[''B'']"]
  have m: "mainLoop demo [''C'', ''B''] = mainLoop (emit (Trace (NoParentPeg ''C'')) demo) [''B'']"
    by (simp add: demo_findPivotNode)
  from peg_search_is_bounded[of demoShallow "''Q''" "''B''" "[]"]
  have f: "findPivotNode demoShallow ''B'' = None"
    by (simp add: demoShallow_facts)
  with peg_search_is_bounded[of demoShallow "''Q''" "''B''" "[]"]
  have q: "processDrawing demoShallow ''B'' = emit (Trace (NoParentPeg ''B'')) demoShallow"
    by simp
  show ?thesis using p u m f q demo_traverse demoShallow_facts demo_findPivotNode(3) by simp
qed

text \<open>
  C5. On every list of node references below which the scene is a finite forest,
  \<^verbatim>\<open>getDrawings\<close> returns, and what it returns is the list of the drawings of that
  forest from left to right: a group stands for the drawings found in its children, in
  their order and at the place of the group, a drawing for itself, and every other node
  for nothing. The function takes the host for its queries only and gives back a list,
  so it has no effect on the scene. For a group with three drawings and a nested group
  with two more, that is the five drawings in depth-first order.
\<close>

theorem getDrawings_flattens:
  "list_all2 (unfolds h) nodeList ts \<Longrightarrow>
     getDrawings h nodeList = Some (concat (map (drawingsOf h) ts))"
  by (rule getDrawings_unfolds)

theorem getDrawings_flattens_witness:
  "list_all2 (unfolds demo) [''G''] [demoTree] \<and>
   getDrawings demo [''G''] = Some [''A'', ''D'', ''E'', ''B'', ''C'']"
proof -
  have u: "list_all2 (unfolds demo) [''G''] [demoTree]" using demo_unfolds by simp
  have "concat (map (drawingsOf demo) [demoTree]) = [''A'', ''D'', ''E'', ''B'', ''C'']"
    by (simp add: demoTree_def demo_def)
  with getDrawings_flattens[OF u] u show ?thesis by simp
qed

text \<open>
  C6. When all four art layers of a drawing answer with \<^verbatim>\<open>false\<close> or with an empty box at
  the current frame, the pass for the drawing adds one line to the message log and
  nothing else: the notice that the drawing is empty when a pivot node was found, the
  notice that there is no parent peg when none was found, which is tested first. No
  attribute is written, and the loop goes on with the drawings that follow.
\<close>

theorem empty_drawing_is_skipped:
  assumes "\<forall>art \<in> {0, 1, 2, 3}. boxIsEmpty (getBox h d (frameCurrent h) art)"
  shows "processDrawing h d =
           emit (Trace (if findPivotNode h d = None then NoParentPeg d
                        else EmptyAtFrame d (frameCurrent h))) h \<and>
         writtenNodes (newCalls h (processDrawing h d)) = {} \<and>
         textAttr (processDrawing h d) = textAttr h \<and>
         mainLoop h (d # ds) = mainLoop (processDrawing h d) ds"
proof -
  from assms have e: "\<not> hasBox h d" by (simp add: hasBox_def)
  have p: "processDrawing h d =
           emit (Trace (if findPivotNode h d = None then NoParentPeg d
                        else EmptyAtFrame d (frameCurrent h))) h"
  proof (cases "findPivotNode h d")
    case None
    then show ?thesis by (simp add: processDrawing_noPeg)
  next
    case (Some t)
    with e show ?thesis by (simp add: processDrawing_empty artLayerCorners_hasBox)
  qed
  have "writtenNodes (newCalls h (processDrawing h d)) = {}"
    using e by (simp add: writtenNodes_processDrawing split: option.splits)
  moreover have "textAttr (processDrawing h d) = textAttr h"
    unfolding p by (rule textAttr_emit)
  ultimately show ?thesis using p mainLoop_Cons by simp
qed

theorem empty_drawing_is_skipped_witness:
  "list_all (\<lambda>art. boxIsEmpty (getBox demo ''E'' (frameCurrent demo) art)) [0, 1, 2, 3] \<and>
   processDrawing demo ''E'' = emit (Trace (EmptyAtFrame ''E'' 7)) demo \<and>
   newCalls demo (processDrawing demo ''E'') = [Trace (EmptyAtFrame ''E'' 7)] \<and>
   mainLoop demo [''E'', ''B''] = mainLoop (emit (Trace (EmptyAtFrame ''E'' 7)) demo) [''B'']"
proof -
  have a: "\<forall>art \<in> {0, 1, 2, 3}. boxIsEmpty (getBox demo ''E'' (frameCurrent demo) art)"
    by (simp add: demo_def)
  from empty_drawing_is_skipped[OF a, of "[''B'']"]
  have p: "processDrawing demo ''E'' = emit (Trace (EmptyAtFrame ''E'' 7)) demo"
    and m: "mainLoop demo [''E'', ''B''] = mainLoop (processDrawing demo ''E'') [''B'']"
    by (simp_all add: demo_findPivotNode demo_fields)
  have "newCalls demo (emit (Trace (EmptyAtFrame ''E'' 7)) demo) = [Trace (EmptyAtFrame ''E'' 7)]"
    by (rule newCalls_append) (rule calls_emit)
  moreover have "list_all (\<lambda>art. boxIsEmpty (getBox demo ''E'' (frameCurrent demo) art)) [0, 1, 2, 3]"
    using a by simp
  ultimately show ?thesis using p m by simp
qed

text \<open>
  C7. When the selection expands to no drawing at all, the run returns with the state it
  started from and one more call in the log, the information dialog: no attribute is
  written, and neither \<^verbatim>\<open>scene.beginUndoRedoAccum\<close> nor \<^verbatim>\<open>scene.endUndoRedoAccum\<close> is
  called.
\<close>

theorem no_drawing_one_dialog:
  "getDrawings h (selectedNodes h) = Some [] \<Longrightarrow>
     ANM_Set_Layer_Pivots_At_Center_Of_Drawings h =
       Some (h\<lparr>calls := calls h @ [Information noSelectionMessage]\<rparr>)"
  by (simp add: ANM_Set_Layer_Pivots_At_Center_Of_Drawings_def emit_def)

theorem no_drawing_one_dialog_witness:
  "getDrawings demoNoDrawing (selectedNodes demoNoDrawing) = Some [] \<and>
   map_option calls (ANM_Set_Layer_Pivots_At_Center_Of_Drawings demoNoDrawing) =
     Some [Information noSelectionMessage] \<and>
   map_option textAttr (ANM_Set_Layer_Pivots_At_Center_Of_Drawings demoNoDrawing) =
     Some (textAttr demoNoDrawing)"
proof -
  have g: "getDrawings demoNoDrawing (selectedNodes demoNoDrawing) = Some []"
    by (simp add: getDrawings_def getDrawingsLoop_Cons getDrawingsLoop_Nil demoNoDrawing_def demo_def)
  have c: "calls demoNoDrawing = []" by (simp add: demoNoDrawing_def demo_def)
  show ?thesis using no_drawing_one_dialog[OF g] g c by simp
qed

text \<open>
  C8. The pass for a drawing writes on at most one node. It writes exactly when a pivot
  node was found and some art layer has a box at the current frame, and then on the
  pivot node alone; so whenever it writes, a box was found. The same holds in every
  state the loop goes through, and the nodes written by a whole loop are the pivot nodes
  of its drawings that have a box.
\<close>

theorem one_node_and_only_with_a_box:
  "(findPivotNode h d = Some t \<and> hasBox h d \<longrightarrow>
      writtenNodes (newCalls h (processDrawing h d)) = {t}) \<and>
   (findPivotNode h d = None \<or> \<not> hasBox h d \<longrightarrow>
      writtenNodes (newCalls h (processDrawing h d)) = {}) \<and>
   (writtenNodes (newCalls h (processDrawing h d)) \<noteq> {} \<longrightarrow> hasBox h d) \<and>
   writtenNodes (newCalls h (mainLoop h ds)) =
     {t. \<exists>d \<in> set ds. findPivotNode h d = Some t \<and> hasBox h d}"
proof -
  from calls_mainLoop[of h ds] have "writtenNodes (newCalls h (mainLoop h ds)) = (\<Union>d \<in> set ds. writeTargets h d)"
    by (auto simp: newCalls_def)
  also have "\<dots> = {t. \<exists>d \<in> set ds. findPivotNode h d = Some t \<and> hasBox h d}"
    by (auto simp: writeTargets_def split: option.splits if_splits)
  finally show ?thesis
    by (auto simp: writtenNodes_processDrawing split: option.splits)
qed

theorem one_node_and_only_with_a_box_witness:
  "findPivotNode demo ''B'' = Some ''P'' \<and> hasBox demo ''B'' \<and>
   writtenNodes (newCalls demo (processDrawing demo ''B'')) = {''P''} \<and>
   \<not> hasBox demo ''E'' \<and>
   writtenNodes (newCalls demo (processDrawing demo ''E'')) = {} \<and>
   writtenNodes (newCalls demo (mainLoop demo [''A'', ''D'', ''E'', ''B'', ''C''])) = {''A'', ''P''}"
  using one_node_and_only_with_a_box[of demo "''B''" "''P''" "[''A'', ''D'', ''E'', ''B'', ''C'']"]
    one_node_and_only_with_a_box[of demo "''E''" "''E''" "[]"]
    demo_findPivotNode demo_hasBox demo_targets by simp

text \<open>
  C9. \<^verbatim>\<open>getDrawings\<close> keeps every occurrence: in the list it returns for a selection below
  which the scene is a finite forest, a drawing stands as often as it stands in that
  forest, whether it was reached directly, through a group, or both. The run then goes
  through the loop once for each entry of the list, and the number of
  \<^verbatim>\<open>node.setTextAttr\<close> calls of the run is the sum, over the drawings of the list, of the
  number of times the drawing stands in the list times the number of calls of one pass
  for it (none if the pass skips it, two, or four when the drawing pivot is inverted).
\<close>

theorem every_occurrence_is_processed:
  assumes "list_all2 (unfolds h) (selectedNodes h) ts"
  shows "\<exists>sNodes h'.
           getDrawings h (selectedNodes h) = Some sNodes \<and>
           (\<forall>d. count_list sNodes d = (\<Sum>t\<leftarrow>ts. occurrences h d t)) \<and>
           ANM_Set_Layer_Pivots_At_Center_Of_Drawings h = Some h' \<and>
           length (filter isSetTextAttr (newCalls h h')) =
             (\<Sum>d \<in> set sNodes. count_list sNodes d * writesPerPass h d)"
proof -
  let ?ds = "concat (map (drawingsOf h) ts)"
  have g: "getDrawings h (selectedNodes h) = Some ?ds" using assms by (rule getDrawings_unfolds)
  from run_effect[OF g] obtain h' es where r:
    "ANM_Set_Layer_Pivots_At_Center_Of_Drawings h = Some h'" "calls h' = calls h @ es"
    "length (filter isSetTextAttr es) = (\<Sum>d\<leftarrow>?ds. writesPerPass h d)" by blast
  have "newCalls h h' = es" using r(2) by (rule newCalls_append)
  then have "length (filter isSetTextAttr (newCalls h h')) =
             (\<Sum>d \<in> set ?ds. count_list ?ds d * writesPerPass h d)"
    using r(3) by (simp add: sum_list_map_eq_sum_count)
  with g r(1) count_forest show ?thesis by blast
qed

theorem every_occurrence_is_processed_witness:
  "list_all2 (unfolds demoTwice) (selectedNodes demoTwice) [NTree ''A'' [], demoTree] \<and>
   getDrawings demoTwice (selectedNodes demoTwice) = Some [''A'', ''A'', ''D'', ''E'', ''B'', ''C''] \<and>
   count_list [''A'', ''A'', ''D'', ''E'', ''B'', ''C''] ''A'' = 2 \<and>
   (\<exists>h'. ANM_Set_Layer_Pivots_At_Center_Of_Drawings demoTwice = Some h' \<and>
         length (filter isSetTextAttr (newCalls demoTwice h')) = 10)"
proof -
  from every_occurrence_is_processed[OF demoTwice_unfolds]
  obtain h' where h': "ANM_Set_Layer_Pivots_At_Center_Of_Drawings demoTwice = Some h'"
    "length (filter isSetTextAttr (newCalls demoTwice h')) =
       (\<Sum>d \<in> set [''A'', ''A'', ''D'', ''E'', ''B'', ''C''].
          count_list [''A'', ''A'', ''D'', ''E'', ''B'', ''C''] d * writesPerPass demoTwice d)"
    unfolding demoTwice_getDrawings by auto
  have "(\<Sum>d \<in> set [''A'', ''A'', ''D'', ''E'', ''B'', ''C''].
          count_list [''A'', ''A'', ''D'', ''E'', ''B'', ''C''] d * writesPerPass demoTwice d) = 10"
    by (simp add: demoTwice_writesPerPass)
  with h' have "\<exists>h'. ANM_Set_Layer_Pivots_At_Center_Of_Drawings demoTwice = Some h' \<and>
         length (filter isSetTextAttr (newCalls demoTwice h')) = 10" by simp
  then show ?thesis using demoTwice_unfolds demoTwice_getDrawings by simp
qed

text \<open>
  C10. In the state a run returns, the scene is the one it started from: the selection,
  the node types, the groups and their children, the parents, the sources, the boolean
  attributes, the boxes and the frame are the same. The only calls that write are
  \<^verbatim>\<open>node.setTextAttr\<close> calls for \<^verbatim>\<open>pivot.x\<close> or \<^verbatim>\<open>pivot.y\<close>, with 1 for the frame, on the
  pivot node of a drawing of the expanded selection that has a box, and a text attribute
  that has changed is such an attribute of such a node. A run on a selection below which
  the scene is a finite forest returns.
\<close>

theorem only_pivots_of_targets_change:
  "(ANM_Set_Layer_Pivots_At_Center_Of_Drawings h = Some h' \<longrightarrow>
      (\<exists>sNodes. getDrawings h (selectedNodes h) = Some sNodes \<and>
         list_all (pivotWrite {t. \<exists>d \<in> set sNodes. findPivotNode h d = Some t \<and> hasBox h d})
           (newCalls h h') \<and>
         (\<forall>n a. textAttr h' n a \<noteq> textAttr h n a \<longrightarrow>
            pivotAttr a \<and> (\<exists>d \<in> set sNodes. findPivotNode h d = Some n \<and> hasBox h d))) \<and>
      sameScene h h') \<and>
   (list_all2 (unfolds h) (selectedNodes h) ts \<longrightarrow>
      ANM_Set_Layer_Pivots_At_Center_Of_Drawings h \<noteq> None)"
proof (intro conjI impI)
  assume a: "ANM_Set_Layer_Pivots_At_Center_Of_Drawings h = Some h'"
  then obtain sNodes where g: "getDrawings h (selectedNodes h) = Some sNodes"
    using ANM_Some_getDrawings by blast
  let ?T = "{t. \<exists>d \<in> set sNodes. findPivotNode h d = Some t \<and> hasBox h d}"
  from run_effect[OF g] a obtain es where r: "calls h' = calls h @ es"
    "list_all (pivotWrite ?T) es" "sameButPivots ?T h h'"
    unfolding writeTargets_Union by auto
  have n: "newCalls h h' = es" using r(1) by (rule newCalls_append)
  from r(3) show "sameScene h h'" by (simp add: sameButPivots_def)
  have "\<forall>n a. textAttr h' n a \<noteq> textAttr h n a \<longrightarrow>
            pivotAttr a \<and> (\<exists>d \<in> set sNodes. findPivotNode h d = Some n \<and> hasBox h d)"
    using r(3) unfolding sameButPivots_def by blast
  with g r(2) n
  show "\<exists>sNodes. getDrawings h (selectedNodes h) = Some sNodes \<and>
         list_all (pivotWrite {t. \<exists>d \<in> set sNodes. findPivotNode h d = Some t \<and> hasBox h d})
           (newCalls h h') \<and>
         (\<forall>n a. textAttr h' n a \<noteq> textAttr h n a \<longrightarrow>
            pivotAttr a \<and> (\<exists>d \<in> set sNodes. findPivotNode h d = Some n \<and> hasBox h d))"
    by blast
next
  assume "list_all2 (unfolds h) (selectedNodes h) ts"
  then have "getDrawings h (selectedNodes h) = Some (concat (map (drawingsOf h) ts))"
    by (rule getDrawings_unfolds)
  from run_effect[OF this] show "ANM_Set_Layer_Pivots_At_Center_Of_Drawings h \<noteq> None" by auto
qed

theorem only_pivots_of_targets_change_witness:
  "list_all2 (unfolds demo) (selectedNodes demo) [demoTree] \<and>
   (\<exists>h'. ANM_Set_Layer_Pivots_At_Center_Of_Drawings demo = Some h' \<and> sameScene demo h' \<and>
         list_all (pivotWrite {''A'', ''P''}) (newCalls demo h') \<and>
         textAttr h' ''B'' = textAttr demo ''B'' \<and>
         textAttr h' ''A'' ''useDrawingPivot'' = textAttr demo ''A'' ''useDrawingPivot'')"
proof -
  have u: "list_all2 (unfolds demo) (selectedNodes demo) [demoTree]"
    using demo_unfolds by (simp add: demo_def)
  from only_pivots_of_targets_change[of demo _ "[demoTree]"] u
  obtain h' where h': "ANM_Set_Layer_Pivots_At_Center_Of_Drawings demo = Some h'" by blast
  from only_pivots_of_targets_change[of demo h' "[demoTree]"] h'
  have s: "sameScene demo h'"
    and l: "list_all (pivotWrite {''A'', ''P''}) (newCalls demo h')"
    and t: "\<forall>n a. textAttr h' n a \<noteq> textAttr demo n a \<longrightarrow> pivotAttr a \<and> n \<in> {''A'', ''P''}"
    unfolding demo_getDrawings using demo_targets by auto
  from t have "\<And>a. textAttr h' ''B'' a = textAttr demo ''B'' a" by fastforce
  then have b: "textAttr h' ''B'' = textAttr demo ''B''" by (rule ext)
  from t have a: "textAttr h' ''A'' ''useDrawingPivot'' = textAttr demo ''A'' ''useDrawingPivot''"
    using pivotAttr_useDrawingPivot by blast
  show ?thesis using u h' s l b a by blast
qed

end
